theory Spec2Isabelle
  imports Main "HOL-Library.Word" "HOL-Library.Multiset"
begin

section \<open>Data model of the logical database\<close>

text \<open>
  The package wraps a set of physical \<^verbatim>\<open>*sqlx.DB\<close> connections behind one logical
  handle.  The physical connections, the prepared statements and the driver are external
  collaborators.  A pointer to a physical connection is a value of type \<open>'c option\<close>
  and a pointer to a prepared statement a value of type \<open>'t option\<close>, with \<open>None\<close> for
  Go's \<^verbatim>\<open>nil\<close>.  The arguments a method forwards unchanged (query text, placeholders,
  destination, transaction options) are one value of type \<open>'a\<close>; the \<^verbatim>\<open>context.Context\<close>
  is forwarded unchanged everywhere and is left out.
\<close>

text \<open>Run-time panics that the package's own statements can raise.\<close>

datatype fault =
    NilDereference      \<comment> \<open>a field of an unallocated \<^verbatim>\<open>*DB\<close> is read\<close>
  | IndexOutOfRange     \<comment> \<open>a slice is indexed outside its length\<close>
  | MakeChanSize        \<comment> \<open>\<^verbatim>\<open>make(chan error, n)\<close> with \<open>n\<close> negative or too large\<close>

text \<open>
  \<^verbatim>\<open>type DB struct { conns []*sqlx.DB; count uint64 }\<close>.
\<close>

record 'c DB =
  conns :: "'c option list"
  count :: "64 word"

text \<open>The calls the package makes on its collaborators.\<close>

datatype 'a meth =
    Close
  | Beginx
  | BeginTxx 'a
  | MustExecContext 'a
  | NamedExecContext 'a
  | PreparexContext 'a
  | PrepareNamedContext 'a
  | QueryxContext 'a
  | QueryRowxContext 'a
  | SelectContext 'a
  | GetContext 'a
  | NamedQueryContext 'a

datatype ('c, 't, 'a) call =
    ConnectContext string string         \<comment> \<open>\<^verbatim>\<open>sqlx.ConnectContext(ctx, driver, dsn)\<close>\<close>
  | OnConn "'c option" "'a meth"        \<comment> \<open>a method of a \<^verbatim>\<open>*sqlx.DB\<close>\<close>
  | OnStmt "'t option" "'a meth"        \<comment> \<open>a method of a \<^verbatim>\<open>*sqlx.Stmt\<close>\<close>
  | OnNamedStmt "'t option" "'a meth"   \<comment> \<open>a method of a \<^verbatim>\<open>*sqlx.NamedStmt\<close>\<close>

text \<open>
  The state the package runs in: the allocated \<^verbatim>\<open>DB\<close> structs (a \<^verbatim>\<open>*DB\<close> is an index
  into \<open>heap\<close>; an index outside the heap stands for \<^verbatim>\<open>nil\<close>) and the sequence of
  collaborator calls made so far.  Prepared-statement groups hold a \<^verbatim>\<open>*DB\<close>, so the
  selection counter of a handle is shared through the heap.
\<close>

type_synonym addr = nat

record ('c, 't, 'a) world =
  heap :: "'c DB list"
  trace :: "('c, 't, 'a) call list"

definition invoke :: "('c, 't, 'a) call \<Rightarrow> ('c, 't, 'a) world \<Rightarrow> ('c, 't, 'a) world" where
  "invoke c w = w\<lparr>trace := trace w @ [c]\<rparr>"

text \<open>
  Go's \<^verbatim>\<open>len\<close> and slice indexing by an \<^verbatim>\<open>int\<close>; an \<^verbatim>\<open>int\<close> is 64 bits wide, as on
  every 64-bit platform, and read as signed.
\<close>

definition len :: "'x list \<Rightarrow> 64 word" where
  "len xs = word_of_nat (length xs)"

definition index :: "'x list \<Rightarrow> 64 word \<Rightarrow> fault + 'x" where
  "index xs i =
     (if 0 \<le>s i \<and> unat i < length xs then Inr (xs ! unat i) else Inl IndexOutOfRange)"

section \<open>The slave selector\<close>

text \<open>
  \<^verbatim>\<open>func (db *DB) slave(n int) int\<close>.  \<^verbatim>\<open>atomic.AddUint64(&db.count, 1)\<close> stores the
  counter plus one, wrapping at \<open>2^64\<close>, and returns the new value; the conversions
  \<^verbatim>\<open>uint64(n-1)\<close> and \<^verbatim>\<open>int(...)\<close> keep the 64 bits.  For \<open>n \<le> 1\<close> the function returns
  before it touches the receiver.
\<close>

definition slave ::
  "addr \<Rightarrow> 64 word \<Rightarrow> ('c, 't, 'a) world \<Rightarrow> fault + (64 word \<times> ('c, 't, 'a) world)" where
  "slave p n w =
     (if n \<le>s 1 then Inr (0, w)
      else if length (heap w) \<le> p then Inl NilDereference
      else (let d = heap w ! p; c = count d + 1
            in Inr (1 + c mod (n - 1), w\<lparr>heap := (heap w)[p := d\<lparr>count := c\<rparr>]\<rparr>)))"

text \<open>\<open>k\<close> successive calls of the selector on one handle, with the indices they return.\<close>

fun slave_calls ::
  "nat \<Rightarrow> addr \<Rightarrow> 64 word \<Rightarrow> ('c, 't, 'a) world \<Rightarrow> fault + (64 word list \<times> ('c, 't, 'a) world)"
where
  "slave_calls 0 p n w = Inr ([], w)"
| "slave_calls (Suc k) p n w =
     (case slave p n w of
        Inl f \<Rightarrow> Inl f
      | Inr (i, w') \<Rightarrow>
          (case slave_calls k p n w' of
             Inl f \<Rightarrow> Inl f
           | Inr (js, w'') \<Rightarrow> Inr (i # js, w'')))"

section \<open>The fan-out executor\<close>

text \<open>
  \<^verbatim>\<open>func scan(n int, fn func(i int) error) error\<close> starts one goroutine per index, each
  of which calls \<open>fn\<close> and sends the outcome on a channel of capacity \<open>n\<close>; the caller
  then receives \<open>cap(errors)\<close> values and keeps the last one that is not \<^verbatim>\<open>nil\<close>.

  The goroutines run concurrently, so the function is modelled as a machine whose steps are
  chosen by a schedule.  \<open>Main\<close> lets the calling goroutine take its next step; \<open>Go k\<close> lets
  the goroutine started for index \<open>k\<close> take its next step: first the call \<open>fn(k)\<close>, then the
  send of its outcome.  A step that is not possible in the current state (a receive from
  the empty channel, a send to the full channel, a goroutine that does not exist or has
  finished) is not taken: \<open>scan_step\<close> yields \<open>None\<close>.

  An operation is a function from the index and the memory it works on to its outcome
  (\<open>None\<close> for \<^verbatim>\<open>nil\<close>) and the memory it leaves; a call of \<open>fn\<close> is one step.  A value in the
  channel carries the index of its sender, and \<open>calls\<close> and \<open>recvd\<close> record the order of
  the calls of \<open>fn\<close> and of the receptions; the program has neither, and no step depends
  on them.
\<close>

datatype action = Main | Go nat

datatype pc =
    Spawn nat    \<comment> \<open>in the first loop, before the test \<^verbatim>\<open>i < n\<close>\<close>
  | Recv nat     \<comment> \<open>in the second loop, before the test \<^verbatim>\<open>i < cap(errors)\<close>\<close>
  | Ret          \<comment> \<open>returned \<^verbatim>\<open>err\<close>\<close>

record ('e, 's) scan_state =
  pc :: pc
  ready :: "nat list"                      \<comment> \<open>goroutines started, \<open>fn\<close> not yet called\<close>
  sending :: "(nat \<times> 'e option) list"      \<comment> \<open>goroutines with the outcome of \<open>fn\<close>, before the send\<close>
  chan :: "(nat \<times> 'e option) list"         \<comment> \<open>the buffered channel \<^verbatim>\<open>errors\<close>, oldest value first\<close>
  err :: "'e option"
  store :: 's
  calls :: "nat list"
  recvd :: "(nat \<times> 'e option) list"

definition scan_init :: "'s \<Rightarrow> ('e, 's) scan_state" where
  "scan_init \<sigma> =
     \<lparr>pc = Spawn 0, ready = [], sending = [], chan = [], err = None, store = \<sigma>,
      calls = [], recvd = []\<rparr>"

fun scan_step ::
  "nat \<Rightarrow> (nat \<Rightarrow> 's \<Rightarrow> 'e option \<times> 's) \<Rightarrow> action \<Rightarrow> ('e, 's) scan_state
     \<Rightarrow> ('e, 's) scan_state option"
where
  "scan_step n fn Main s =
     (case pc s of
        Spawn i \<Rightarrow>
          (if i < n then Some (s\<lparr>pc := Spawn (Suc i), ready := ready s @ [i]\<rparr>)
           else Some (s\<lparr>pc := Recv 0\<rparr>))
      | Recv i \<Rightarrow>
          (if i < n then
             (case chan s of
                [] \<Rightarrow> None
              | (k, r) # q \<Rightarrow>
                  Some (s\<lparr>pc := Recv (Suc i), chan := q,
                          err := (if r \<noteq> None then r else err s),
                          recvd := recvd s @ [(k, r)]\<rparr>))
           else Some (s\<lparr>pc := Ret\<rparr>))
      | Ret \<Rightarrow> None)"
| "scan_step n fn (Go k) s =
     (if k \<in> set (ready s) then
        (let (r, \<sigma>) = fn k (store s)
         in Some (s\<lparr>ready := remove1 k (ready s), sending := sending s @ [(k, r)],
                    store := \<sigma>, calls := calls s @ [k]\<rparr>))
      else
        (case map_of (sending s) k of
           None \<Rightarrow> None
         | Some r \<Rightarrow>
             (if length (chan s) < n then
                Some (s\<lparr>sending := remove1 (k, r) (sending s), chan := chan s @ [(k, r)]\<rparr>)
              else None)))"

fun scan_exec ::
  "nat \<Rightarrow> (nat \<Rightarrow> 's \<Rightarrow> 'e option \<times> 's) \<Rightarrow> action list \<Rightarrow> ('e, 's) scan_state
     \<Rightarrow> ('e, 's) scan_state option"
where
  "scan_exec n fn [] s = Some s"
| "scan_exec n fn (a # as) s =
     (case scan_step n fn a s of None \<Rightarrow> None | Some s' \<Rightarrow> scan_exec n fn as s')"

text \<open>
  What a function that fans out does under a schedule: it panics, or the schedule is not a
  complete execution (a step of it is impossible, or it ends before the function has
  returned), or the function returns.
\<close>

datatype 'r outcome = Panics fault | Unfinished | Returns 'r

text \<open>
  The count \<open>n\<close> is a Go \<^verbatim>\<open>int\<close>.  \<open>scan\<close> only compares it with the loop counters, which
  count up to it from 0, so it is an unbounded integer here.  \<^verbatim>\<open>make(chan error, n)\<close>
  panics (\<^verbatim>\<open>makechan: size out of range\<close>) when \<open>n\<close> is negative and when the buffer of \<open>n\<close>
  values is more than the allocator of the platform can address.  \<open>lim\<close> is the largest
  capacity that \<^verbatim>\<open>make\<close> accepts; it depends on the platform (about \<open>2^44\<close> on linux/amd64)
  and is a parameter.
\<close>

definition scan ::
  "int \<Rightarrow> action list \<Rightarrow> int \<Rightarrow> (nat \<Rightarrow> 's \<Rightarrow> 'e option \<times> 's) \<Rightarrow> 's
     \<Rightarrow> ('e option \<times> 's) outcome" where
  "scan lim sch n fn \<sigma> =
     (if n < 0 \<or> lim < n then Panics MakeChanSize
      else (case scan_exec (nat n) fn sch (scan_init \<sigma>) of
              None \<Rightarrow> Unfinished
            | Some s \<Rightarrow> if pc s = Ret then Returns (err s, store s) else Unfinished))"

text \<open>
  The calls \<^verbatim>\<open>scan(len(xs), fn)\<close> of the package.  The count is the length \<open>k\<close> of a slice
  that is held in memory when \<open>scan\<close> is called.  Such a length is taken to be within the
  bound of \<^verbatim>\<open>make\<close> (a slice of \<open>2^44\<close> pointers takes 128 TiB), so that these calls do not
  panic on the count: the bound is the count itself here.
\<close>

definition scan_len ::
  "action list \<Rightarrow> nat \<Rightarrow> (nat \<Rightarrow> 's \<Rightarrow> 'e option \<times> 's) \<Rightarrow> 's \<Rightarrow> ('e option \<times> 's) outcome" where
  "scan_len sch k fn \<sigma> = scan (int k) sch (int k) fn \<sigma>"

text \<open>
  Specification of the reported failure: the last outcome that is a failure in a sequence
  of outcomes, \<open>None\<close> when there is none.
\<close>

definition last_failure :: "'e option list \<Rightarrow> 'e option" where
  "last_failure rs = (case rev (filter (\<lambda>r. r \<noteq> None) rs) of [] \<Rightarrow> None | r # _ \<Rightarrow> r)"

text \<open>
  Specification of what the calls of the operation do: the memory that the calls for the
  indices \<open>cs\<close>, made in that order from the memory \<open>\<sigma>\<close>, leave, and the outcome of each
  of those calls with its index.
\<close>

definition effects :: "(nat \<Rightarrow> 's \<Rightarrow> 'e option \<times> 's) \<Rightarrow> nat list \<Rightarrow> 's \<Rightarrow> 's" where
  "effects fn cs \<sigma> = fold (\<lambda>k v. snd (fn k v)) cs \<sigma>"

definition outcomes ::
  "(nat \<Rightarrow> 's \<Rightarrow> 'e option \<times> 's) \<Rightarrow> nat list \<Rightarrow> 's \<Rightarrow> (nat \<times> 'e option) list" where
  "outcomes fn cs \<sigma> =
     map (\<lambda>j. (cs ! j, fst (fn (cs ! j) (effects fn (take j cs) \<sigma>)))) [0..<length cs]"

text \<open>
  What holds in every state of the machine: a goroutine has been started for each index
  below the first loop's counter, each is in exactly one place (not yet run, before its
  send, in the channel, received), \<open>fn\<close> has been called for those that have run, the
  second loop's counter is the number of values received, and \<open>err\<close> is the last failure
  received.
\<close>

fun spawned :: "nat \<Rightarrow> pc \<Rightarrow> nat" where
  "spawned n (Spawn i) = i"
| "spawned n (Recv i) = n"
| "spawned n Ret = n"

fun received :: "nat \<Rightarrow> pc \<Rightarrow> nat" where
  "received n (Spawn i) = 0"
| "received n (Recv i) = i"
| "received n Ret = n"

fun pc_ok :: "nat \<Rightarrow> pc \<Rightarrow> bool" where
  "pc_ok n (Spawn i) = (i \<le> n)"
| "pc_ok n (Recv i) = (i \<le> n)"
| "pc_ok n Ret = True"

definition scan_inv :: "nat \<Rightarrow> ('e, 's) scan_state \<Rightarrow> bool" where
  "scan_inv n s \<longleftrightarrow>
     pc_ok n (pc s) \<and>
     mset (ready s) + mset (map fst (sending s @ chan s @ recvd s)) =
       mset [0..<spawned n (pc s)] \<and>
     mset (calls s) = mset (map fst (sending s @ chan s @ recvd s)) \<and>
     length (recvd s) = received n (pc s) \<and>
     err s = last_failure (map snd (recvd s))"

text \<open>A bound on the number of steps the machine can still take.\<close>

fun steps_left :: "nat \<Rightarrow> pc \<Rightarrow> nat" where
  "steps_left n (Spawn i) = 3 * (n - i) + n + 2"
| "steps_left n (Recv i) = (n - i) + 1"
| "steps_left n Ret = 0"

definition scan_measure :: "nat \<Rightarrow> ('e, 's) scan_state \<Rightarrow> nat" where
  "scan_measure n s = steps_left n (pc s) + 2 * length (ready s) + length (sending s)"

section \<open>Opening a handle\<close>

text \<open>
  \<^verbatim>\<open>strings.Split(s, sep)\<close> of Go's standard library, for a separator of one byte:
  the substrings between the occurrences of the separator, one more than there are
  occurrences.
\<close>

fun strings_Split :: "string \<Rightarrow> char \<Rightarrow> string list" where
  "strings_Split [] sep = [[]]"
| "strings_Split (c # cs) sep =
     (if c = sep then [] # strings_Split cs sep
      else (case strings_Split cs sep of
              [] \<Rightarrow> [[c]]
            | x # xs \<Rightarrow> (c # x) # xs))"

text \<open>
  \<^verbatim>\<open>func Open(ctx, driver, source) (*DB, error)\<close>.  \<open>connect driver dsn\<close> is the pair that
  \<^verbatim>\<open>sqlx.ConnectContext\<close> returns.  The new \<^verbatim>\<open>DB\<close> is allocated at the end of the heap;
  the operation given to \<open>scan\<close> stores the connection in slot \<open>i\<close> of its \<open>conns\<close>.
  \<open>scan\<close> calls the operation only with indices below the length of \<open>dsns\<close>
  (lemma \<open>scan_inv_calls\<close>), where the two slices are indexed in range.
\<close>

definition Open_fn ::
  "(string \<Rightarrow> string \<Rightarrow> 'c option \<times> 'e option) \<Rightarrow> string \<Rightarrow> string list \<Rightarrow> addr \<Rightarrow> nat
     \<Rightarrow> ('c, 't, 'a) world \<Rightarrow> 'e option \<times> ('c, 't, 'a) world" where
  "Open_fn connect driver dsns p i w =
     (let (c, e) = connect driver (dsns ! i);
          w' = invoke (ConnectContext driver (dsns ! i)) w;
          d = heap w' ! p
      in (e, w'\<lparr>heap := (heap w')[p := d\<lparr>conns := (conns d)[i := c]\<rparr>]\<rparr>))"

definition Open ::
  "action list \<Rightarrow> (string \<Rightarrow> string \<Rightarrow> 'c option \<times> 'e option) \<Rightarrow> string \<Rightarrow> string
     \<Rightarrow> ('c, 't, 'a) world \<Rightarrow> ((addr option \<times> 'e option) \<times> ('c, 't, 'a) world) outcome" where
  "Open sch connect driver source w =
     (let dsns = strings_Split source CHR '';'';
          p = length (heap w);
          w1 = w\<lparr>heap := heap w @ [\<lparr>conns = replicate (length dsns) None, count = 0\<rparr>]\<rparr>
      in case scan_len sch (length (conns (heap w1 ! p))) (Open_fn connect driver dsns p) w1 of
           Panics f \<Rightarrow> Panics f
         | Unfinished \<Rightarrow> Unfinished
         | Returns (e, w2) \<Rightarrow>
             if e \<noteq> None then Returns ((None, e), w2) else Returns ((Some p, None), w2))"

section \<open>Routing on the handle\<close>

definition DB_Master :: "addr \<Rightarrow> ('c, 't, 'a) world \<Rightarrow> fault + 'c option" where
  "DB_Master p w =
     (if length (heap w) \<le> p then Inl NilDereference else index (conns (heap w ! p)) 0)"

definition DB_Slave ::
  "addr \<Rightarrow> ('c, 't, 'a) world \<Rightarrow> fault + ('c option \<times> ('c, 't, 'a) world)" where
  "DB_Slave p w =
     (if length (heap w) \<le> p then Inl NilDereference
      else (case slave p (len (conns (heap w ! p))) w of
              Inl f \<Rightarrow> Inl f
            | Inr (i, w') \<Rightarrow>
                (case index (conns (heap w ! p)) i of
                   Inl f \<Rightarrow> Inl f
                 | Inr c \<Rightarrow> Inr (c, w'))))"

text \<open>
  The methods of the handle return what the method of the physical connection returns;
  the model records on which connection which method is called.  The writes go to
  \<^verbatim>\<open>db.Master()\<close>.
\<close>

definition DB_Begin :: "addr \<Rightarrow> ('c, 't, 'a) world \<Rightarrow> fault + ('c, 't, 'a) world" where
  "DB_Begin p w =
     (case DB_Master p w of
        Inl f \<Rightarrow> Inl f
      | Inr c \<Rightarrow> Inr (invoke (OnConn c Beginx) w))"

definition DB_BeginTx :: "addr \<Rightarrow> 'a \<Rightarrow> ('c, 't, 'a) world \<Rightarrow> fault + ('c, 't, 'a) world" where
  "DB_BeginTx p x w =
     (case DB_Master p w of
        Inl f \<Rightarrow> Inl f
      | Inr c \<Rightarrow> Inr (invoke (OnConn c (BeginTxx x)) w))"

definition DB_Exec :: "addr \<Rightarrow> 'a \<Rightarrow> ('c, 't, 'a) world \<Rightarrow> fault + ('c, 't, 'a) world" where
  "DB_Exec p x w =
     (case DB_Master p w of
        Inl f \<Rightarrow> Inl f
      | Inr c \<Rightarrow> Inr (invoke (OnConn c (MustExecContext x)) w))"

definition DB_NamedExec :: "addr \<Rightarrow> 'a \<Rightarrow> ('c, 't, 'a) world \<Rightarrow> fault + ('c, 't, 'a) world" where
  "DB_NamedExec p x w =
     (case DB_Master p w of
        Inl f \<Rightarrow> Inl f
      | Inr c \<Rightarrow> Inr (invoke (OnConn c (NamedExecContext x)) w))"

text \<open>The reads go to \<^verbatim>\<open>db.Slave()\<close>.\<close>

definition DB_Query :: "addr \<Rightarrow> 'a \<Rightarrow> ('c, 't, 'a) world \<Rightarrow> fault + ('c, 't, 'a) world" where
  "DB_Query p x w =
     (case DB_Slave p w of
        Inl f \<Rightarrow> Inl f
      | Inr (c, w') \<Rightarrow> Inr (invoke (OnConn c (QueryxContext x)) w'))"

definition DB_QueryRow :: "addr \<Rightarrow> 'a \<Rightarrow> ('c, 't, 'a) world \<Rightarrow> fault + ('c, 't, 'a) world" where
  "DB_QueryRow p x w =
     (case DB_Slave p w of
        Inl f \<Rightarrow> Inl f
      | Inr (c, w') \<Rightarrow> Inr (invoke (OnConn c (QueryRowxContext x)) w'))"

definition DB_Select :: "addr \<Rightarrow> 'a \<Rightarrow> ('c, 't, 'a) world \<Rightarrow> fault + ('c, 't, 'a) world" where
  "DB_Select p x w =
     (case DB_Slave p w of
        Inl f \<Rightarrow> Inl f
      | Inr (c, w') \<Rightarrow> Inr (invoke (OnConn c (SelectContext x)) w'))"

definition DB_Get :: "addr \<Rightarrow> 'a \<Rightarrow> ('c, 't, 'a) world \<Rightarrow> fault + ('c, 't, 'a) world" where
  "DB_Get p x w =
     (case DB_Slave p w of
        Inl f \<Rightarrow> Inl f
      | Inr (c, w') \<Rightarrow> Inr (invoke (OnConn c (GetContext x)) w'))"

definition DB_NamedQuery :: "addr \<Rightarrow> 'a \<Rightarrow> ('c, 't, 'a) world \<Rightarrow> fault + ('c, 't, 'a) world" where
  "DB_NamedQuery p x w =
     (case DB_Slave p w of
        Inl f \<Rightarrow> Inl f
      | Inr (c, w') \<Rightarrow> Inr (invoke (OnConn c (NamedQueryContext x)) w'))"

section \<open>Prepared-statement groups\<close>

text \<open>
  \<^verbatim>\<open>type stmt struct { db *DB; stmts []*sqlx.Stmt }\<close>, and \<^verbatim>\<open>namedStmt\<close> with the same
  fields over \<^verbatim>\<open>*sqlx.NamedStmt\<close>.  A group is never modified after it is built.
\<close>

record 't stmt =
  db :: addr
  stmts :: "'t option list"

type_synonym 't namedStmt = "'t stmt"

text \<open>
  The operation that \<open>Prepare\<close> and \<open>NamedPrepare\<close> fan out: \<open>prepare c x\<close> is the pair that
  the collaborator's prepare method \<open>m\<close> returns on connection \<open>c\<close>; the statement goes
  into slot \<open>i\<close> of the local slice.
\<close>

definition Prepare_fn ::
  "('c option \<Rightarrow> 'a \<Rightarrow> 't option \<times> 'e option) \<Rightarrow> 'a meth \<Rightarrow> addr \<Rightarrow> 'a \<Rightarrow> nat
     \<Rightarrow> 't option list \<times> ('c, 't, 'a) world
     \<Rightarrow> 'e option \<times> ('t option list \<times> ('c, 't, 'a) world)" where
  "Prepare_fn prepare m p x i \<sigma> =
     (let c = conns (heap (snd \<sigma>) ! p) ! i;
          (t, e) = prepare c x
      in (e, ((fst \<sigma>)[i := t], invoke (OnConn c m) (snd \<sigma>))))"

definition DB_Prepare ::
  "action list \<Rightarrow> ('c option \<Rightarrow> 'a \<Rightarrow> 't option \<times> 'e option) \<Rightarrow> addr \<Rightarrow> 'a
     \<Rightarrow> ('c, 't, 'a) world \<Rightarrow> (('t stmt option \<times> 'e option) \<times> ('c, 't, 'a) world) outcome" where
  "DB_Prepare sch prepare p x w =
     (if length (heap w) \<le> p then Panics NilDereference
      else
        (let stmts0 = replicate (length (conns (heap w ! p))) None
         in case scan_len sch (length (conns (heap w ! p)))
                   (Prepare_fn prepare (PreparexContext x) p x) (stmts0, w) of
              Panics f \<Rightarrow> Panics f
            | Unfinished \<Rightarrow> Unfinished
            | Returns (e, (ss, w')) \<Rightarrow>
                if e \<noteq> None then Returns ((None, e), w')
                else Returns ((Some \<lparr>db = p, stmts = ss\<rparr>, None), w')))"

definition DB_NamedPrepare ::
  "action list \<Rightarrow> ('c option \<Rightarrow> 'a \<Rightarrow> 't option \<times> 'e option) \<Rightarrow> addr \<Rightarrow> 'a
     \<Rightarrow> ('c, 't, 'a) world
     \<Rightarrow> (('t namedStmt option \<times> 'e option) \<times> ('c, 't, 'a) world) outcome" where
  "DB_NamedPrepare sch prepare p x w =
     (if length (heap w) \<le> p then Panics NilDereference
      else
        (let stmts0 = replicate (length (conns (heap w ! p))) None
         in case scan_len sch (length (conns (heap w ! p)))
                   (Prepare_fn prepare (PrepareNamedContext x) p x) (stmts0, w) of
              Panics f \<Rightarrow> Panics f
            | Unfinished \<Rightarrow> Unfinished
            | Returns (e, (ss, w')) \<Rightarrow>
                if e \<noteq> None then Returns ((None, e), w')
                else Returns ((Some \<lparr>db = p, stmts = ss\<rparr>, None), w')))"

text \<open>
  \<^verbatim>\<open>func (s *stmt) Close() error\<close>: \<open>closer t\<close> is the error that closing statement \<open>t\<close>
  returns.  A slot that holds no statement is handed to the collaborator as it is; that
  \<^verbatim>\<open>sqlx\<close> panics on it is not part of this model.
\<close>

definition stmt_Close ::
  "action list \<Rightarrow> ('t option \<Rightarrow> 'e option) \<Rightarrow> 't stmt \<Rightarrow> ('c, 't, 'a) world
     \<Rightarrow> ('e option \<times> ('c, 't, 'a) world) outcome" where
  "stmt_Close sch closer s w =
     scan_len sch (length (stmts s))
       (\<lambda>i v. (closer (stmts s ! i), invoke (OnStmt (stmts s ! i) Close) v)) w"

definition namedStmt_Close ::
  "action list \<Rightarrow> ('t option \<Rightarrow> 'e option) \<Rightarrow> 't namedStmt \<Rightarrow> ('c, 't, 'a) world
     \<Rightarrow> ('e option \<times> ('c, 't, 'a) world) outcome" where
  "namedStmt_Close sch closer s w =
     scan_len sch (length (stmts s))
       (\<lambda>i v. (closer (stmts s ! i), invoke (OnNamedStmt (stmts s ! i) Close) v)) w"

text \<open>\<^verbatim>\<open>func (s *stmt) indexForSalve() int\<close>, the same in both groups.\<close>

definition stmt_indexForSalve ::
  "'t stmt \<Rightarrow> ('c, 't, 'a) world \<Rightarrow> fault + (64 word \<times> ('c, 't, 'a) world)" where
  "stmt_indexForSalve s w =
     (if length (heap w) \<le> db s then Inl NilDereference
      else slave (db s) (len (conns (heap w ! db s))) w)"

definition namedStmt_indexForSalve ::
  "'t namedStmt \<Rightarrow> ('c, 't, 'a) world \<Rightarrow> fault + (64 word \<times> ('c, 't, 'a) world)" where
  "namedStmt_indexForSalve s w =
     (if length (heap w) \<le> db s then Inl NilDereference
      else slave (db s) (len (conns (heap w ! db s))) w)"

text \<open>\<open>Exec\<close> uses the statement at index 0, the reads the statement at the selected index.\<close>

definition stmt_Exec :: "'t stmt \<Rightarrow> 'a \<Rightarrow> ('c, 't, 'a) world \<Rightarrow> fault + ('c, 't, 'a) world" where
  "stmt_Exec s x w =
     (case index (stmts s) 0 of
        Inl f \<Rightarrow> Inl f
      | Inr t \<Rightarrow> Inr (invoke (OnStmt t (MustExecContext x)) w))"

definition stmt_Query :: "'t stmt \<Rightarrow> 'a \<Rightarrow> ('c, 't, 'a) world \<Rightarrow> fault + ('c, 't, 'a) world" where
  "stmt_Query s x w =
     (case stmt_indexForSalve s w of
        Inl f \<Rightarrow> Inl f
      | Inr (i, w') \<Rightarrow>
          (case index (stmts s) i of
             Inl f \<Rightarrow> Inl f
           | Inr t \<Rightarrow> Inr (invoke (OnStmt t (QueryxContext x)) w')))"

definition stmt_QueryRow :: "'t stmt \<Rightarrow> 'a \<Rightarrow> ('c, 't, 'a) world \<Rightarrow> fault + ('c, 't, 'a) world" where
  "stmt_QueryRow s x w =
     (case stmt_indexForSalve s w of
        Inl f \<Rightarrow> Inl f
      | Inr (i, w') \<Rightarrow>
          (case index (stmts s) i of
             Inl f \<Rightarrow> Inl f
           | Inr t \<Rightarrow> Inr (invoke (OnStmt t (QueryRowxContext x)) w')))"

definition stmt_Select :: "'t stmt \<Rightarrow> 'a \<Rightarrow> ('c, 't, 'a) world \<Rightarrow> fault + ('c, 't, 'a) world" where
  "stmt_Select s x w =
     (case stmt_indexForSalve s w of
        Inl f \<Rightarrow> Inl f
      | Inr (i, w') \<Rightarrow>
          (case index (stmts s) i of
             Inl f \<Rightarrow> Inl f
           | Inr t \<Rightarrow> Inr (invoke (OnStmt t (SelectContext x)) w')))"

definition stmt_Get :: "'t stmt \<Rightarrow> 'a \<Rightarrow> ('c, 't, 'a) world \<Rightarrow> fault + ('c, 't, 'a) world" where
  "stmt_Get s x w =
     (case stmt_indexForSalve s w of
        Inl f \<Rightarrow> Inl f
      | Inr (i, w') \<Rightarrow>
          (case index (stmts s) i of
             Inl f \<Rightarrow> Inl f
           | Inr t \<Rightarrow> Inr (invoke (OnStmt t (GetContext x)) w')))"

definition namedStmt_Exec :: "'t namedStmt \<Rightarrow> 'a \<Rightarrow> ('c, 't, 'a) world \<Rightarrow> fault + ('c, 't, 'a) world" where
  "namedStmt_Exec s x w =
     (case index (stmts s) 0 of
        Inl f \<Rightarrow> Inl f
      | Inr t \<Rightarrow> Inr (invoke (OnNamedStmt t (MustExecContext x)) w))"

definition namedStmt_Query :: "'t namedStmt \<Rightarrow> 'a \<Rightarrow> ('c, 't, 'a) world \<Rightarrow> fault + ('c, 't, 'a) world" where
  "namedStmt_Query s x w =
     (case namedStmt_indexForSalve s w of
        Inl f \<Rightarrow> Inl f
      | Inr (i, w') \<Rightarrow>
          (case index (stmts s) i of
             Inl f \<Rightarrow> Inl f
           | Inr t \<Rightarrow> Inr (invoke (OnNamedStmt t (QueryxContext x)) w')))"

definition namedStmt_QueryRow :: "'t namedStmt \<Rightarrow> 'a \<Rightarrow> ('c, 't, 'a) world \<Rightarrow> fault + ('c, 't, 'a) world" where
  "namedStmt_QueryRow s x w =
     (case namedStmt_indexForSalve s w of
        Inl f \<Rightarrow> Inl f
      | Inr (i, w') \<Rightarrow>
          (case index (stmts s) i of
             Inl f \<Rightarrow> Inl f
           | Inr t \<Rightarrow> Inr (invoke (OnNamedStmt t (QueryRowxContext x)) w')))"

definition namedStmt_Select :: "'t namedStmt \<Rightarrow> 'a \<Rightarrow> ('c, 't, 'a) world \<Rightarrow> fault + ('c, 't, 'a) world" where
  "namedStmt_Select s x w =
     (case namedStmt_indexForSalve s w of
        Inl f \<Rightarrow> Inl f
      | Inr (i, w') \<Rightarrow>
          (case index (stmts s) i of
             Inl f \<Rightarrow> Inl f
           | Inr t \<Rightarrow> Inr (invoke (OnNamedStmt t (SelectContext x)) w')))"

definition namedStmt_Get :: "'t namedStmt \<Rightarrow> 'a \<Rightarrow> ('c, 't, 'a) world \<Rightarrow> fault + ('c, 't, 'a) world" where
  "namedStmt_Get s x w =
     (case namedStmt_indexForSalve s w of
        Inl f \<Rightarrow> Inl f
      | Inr (i, w') \<Rightarrow>
          (case index (stmts s) i of
             Inl f \<Rightarrow> Inl f
           | Inr t \<Rightarrow> Inr (invoke (OnNamedStmt t (GetContext x)) w')))"

section \<open>Properties of the slave selector\<close>

lemma uint_pred_of_sless:
  fixes n :: "64 word"
  assumes "1 <s n"
  shows "uint (n - 1) = sint n - 1"
proof -
  have k: "1 < sint n" using assms by (simp add: word_sless_alt)
  have u: "sint n < 2 ^ 63" using sint_lt [of n] by simp
  have "n = word_of_int (sint n)" by simp
  then have "n - 1 = word_of_int (sint n - 1)" by (metis word_of_int_1 wi_hom_sub)
  moreover have g: "uint (word_of_int j :: 64 word) = j mod 2 ^ 64" for j
    by (simp add: uint_word_of_int)
  note g [of "sint n - 1"]
  ultimately have "uint (n - 1) = (sint n - 1) mod 2 ^ 64"
    by (simp only:)
  also have "\<dots> = sint n - 1" using k u by simp
  finally show ?thesis .
qed

lemma uint_selected:
  fixes n c :: "64 word"
  assumes "1 <s n"
  shows "uint (1 + c mod (n - 1)) = 1 + uint c mod (sint n - 1)"
proof -
  have k: "1 < sint n" using assms by (simp add: word_sless_alt)
  have u: "sint n < 2 ^ 63" using sint_lt [of n] by simp
  have m: "uint (c mod (n - 1)) = uint c mod (sint n - 1)"
    by (simp add: uint_mod uint_pred_of_sless [OF assms])
  have "uint c mod (sint n - 1) < sint n - 1" using k by simp
  then have "1 + uint (c mod (n - 1)) < 2 ^ 64" using m u by simp
  then have "uint (1 + c mod (n - 1)) = 1 + uint (c mod (n - 1))"
    by (simp add: uint_add_lem [THEN iffD1])
  then show ?thesis using m by simp
qed

lemma sint_selected:
  fixes n c :: "64 word"
  assumes "1 <s n"
  shows "sint (1 + c mod (n - 1)) = 1 + uint c mod (sint n - 1)"
proof -
  have k: "1 < sint n" using assms by (simp add: word_sless_alt)
  have u: "sint n < 2 ^ 63" using sint_lt [of n] by simp
  have "uint c mod (sint n - 1) < sint n - 1" "0 \<le> uint c mod (sint n - 1)"
    using k by simp_all
  then have b: "uint (1 + c mod (n - 1)) < 2 ^ 63"
    using u uint_selected [OF assms, of c] by simp
  have "sint (1 + c mod (n - 1)) = signed_take_bit 63 (uint (1 + c mod (n - 1)))"
    by (simp add: sint_uint)
  also have "\<dots> = uint (1 + c mod (n - 1))"
  proof (rule signed_take_bit_int_eq_self)
    show "- (2 ^ 63) \<le> uint (1 + c mod (n - 1))" by (rule order_trans [of _ 0]) simp_all
    show "uint (1 + c mod (n - 1)) < 2 ^ 63" using b .
  qed
  finally show ?thesis using uint_selected [OF assms, of c] by simp
qed

lemma selected_in_range:
  fixes n c :: "64 word"
  assumes "1 <s n"
  shows "1 \<le> sint (1 + c mod (n - 1))" "sint (1 + c mod (n - 1)) \<le> sint n - 1"
    "1 + c mod (n - 1) \<noteq> 0"
proof -
  have k: "1 < sint n" using assms by (simp add: word_sless_alt)
  have "0 \<le> uint c mod (sint n - 1)" "uint c mod (sint n - 1) < sint n - 1"
    using k by simp_all
  then show a: "1 \<le> sint (1 + c mod (n - 1))" and "sint (1 + c mod (n - 1)) \<le> sint n - 1"
    using sint_selected [OF assms, of c] by simp_all
  show "1 + c mod (n - 1) \<noteq> 0" using a by auto
qed

lemma not_sle_iff: "(\<not> (n::64 word) \<le>s 1) \<longleftrightarrow> 1 <s n"
  by (auto simp add: word_sless_alt word_sle_eq)

lemma slave_few: "n \<le>s 1 \<Longrightarrow> slave p n w = Inr (0, w)"
  by (simp add: slave_def)

lemma slave_many:
  assumes "1 <s n" "p < length (heap w)"
  shows "slave p n w =
      Inr (1 + (count (heap w ! p) + 1) mod (n - 1),
           w\<lparr>heap := (heap w)[p := (heap w ! p)\<lparr>count := count (heap w ! p) + 1\<rparr>]\<rparr>)"
proof -
  have "\<not> n \<le>s 1" using assms(1) by (simp add: not_sle_iff)
  then show ?thesis using assms(2) by (simp add: slave_def Let_def)
qed

text \<open>
  C1.  With at most one target the selector returns 0.  With \<open>n \<ge> 2\<close> targets, on an
  allocated handle, it returns \<open>1 + (c mod (n - 1))\<close> for the incremented counter \<open>c\<close>,
  and that index lies between 1 and \<open>n - 1\<close>, so it is never 0.
\<close>

theorem slave_index:
  "(n \<le>s 1 \<longrightarrow> slave p n w = Inr (0, w)) \<and>
   (1 <s n \<and> p < length (heap w) \<longrightarrow>
      (\<exists>i w'. slave p n w = Inr (i, w') \<and>
         i = 1 + (count (heap w ! p) + 1) mod (n - 1) \<and>
         1 \<le> sint i \<and> sint i \<le> sint n - 1 \<and> i \<noteq> 0))"
proof (intro conjI impI)
  assume "n \<le>s 1"
  then show "slave p n w = Inr (0, w)" by (rule slave_few)
next
  assume a: "1 <s n \<and> p < length (heap w)"
  then show "\<exists>i w'. slave p n w = Inr (i, w') \<and>
         i = 1 + (count (heap w ! p) + 1) mod (n - 1) \<and>
         1 \<le> sint i \<and> sint i \<le> sint n - 1 \<and> i \<noteq> 0"
    using selected_in_range [of n "count (heap w ! p) + 1"] slave_many [of n p w] by simp
qed

theorem slave_index_witness:
  "(1 :: 64 word) <s 3 \<and>
   (0 :: nat) < length (heap \<lparr>heap = [\<lparr>conns = [Some ''A'', Some ''B'', Some ''C''], count = 4\<rparr>],
                              trace = ([] :: (string, unit, unit) call list)\<rparr>) \<and>
   (\<exists>i w'. slave 0 3 \<lparr>heap = [\<lparr>conns = [Some ''A'', Some ''B'', Some ''C''], count = 4\<rparr>],
                       trace = ([] :: (string, unit, unit) call list)\<rparr> = Inr (i, w') \<and>
      i = 1 + (4 + 1) mod (3 - 1) \<and> 1 \<le> sint i \<and> sint i \<le> sint (3 :: 64 word) - 1 \<and> i \<noteq> 0) \<and>
   (1 :: 64 word) \<le>s 1 \<and>
   slave 0 1 \<lparr>heap = [\<lparr>conns = [Some ''A''], count = 4\<rparr>],
               trace = ([] :: (string, unit, unit) call list)\<rparr> =
     Inr (0, \<lparr>heap = [\<lparr>conns = [Some ''A''], count = 4\<rparr>], trace = []\<rparr>)"
proof -
  let ?w = "\<lparr>heap = [\<lparr>conns = [Some ''A'', Some ''B'', Some ''C''], count = 4\<rparr>],
             trace = ([] :: (string, unit, unit) call list)\<rparr>"
  let ?v = "\<lparr>heap = [\<lparr>conns = [Some ''A''], count = 4\<rparr>],
             trace = ([] :: (string, unit, unit) call list)\<rparr>"
  have h: "(1 :: 64 word) <s 3" "(0 :: nat) < length (heap ?w)" "(1 :: 64 word) \<le>s 1"
    by (simp_all add: word_sless_alt word_sle_eq)
  show ?thesis
    using h slave_index [of 3 0 ?w] slave_index [of 1 0 ?v] by simp
qed

lemma slave_calls_many:
  assumes "1 <s n" "p < length (heap w)"
  shows "slave_calls k p n w =
     Inr (map (\<lambda>j. 1 + (count (heap w ! p) + word_of_nat j) mod (n - 1)) [1..<Suc k],
          if k = 0 then w
          else w\<lparr>heap := (heap w)[p := (heap w ! p)\<lparr>count := count (heap w ! p) + word_of_nat k\<rparr>]\<rparr>)"
  using assms(2)
proof (induction k arbitrary: w)
  case 0
  show ?case by simp
next
  case (Suc k)
  let ?d = "heap w ! p"
  let ?w1 = "w\<lparr>heap := (heap w)[p := ?d\<lparr>count := count ?d + 1\<rparr>]\<rparr>"
  have s: "slave p n w = Inr (1 + (count ?d + 1) mod (n - 1), ?w1)"
    using slave_many [OF assms(1) Suc.prems] .
  have l: "p < length (heap ?w1)" using Suc.prems by simp
  have c1: "count (heap ?w1 ! p) = count ?d + 1" using Suc.prems by simp
  have ih: "slave_calls k p n ?w1 =
     Inr (map (\<lambda>j. 1 + (count ?d + 1 + word_of_nat j) mod (n - 1)) [1..<Suc k],
          if k = 0 then ?w1
          else ?w1\<lparr>heap := (heap ?w1)[p := (heap ?w1 ! p)\<lparr>count := count ?d + 1 + word_of_nat k\<rparr>]\<rparr>)"
    using Suc.IH [OF l] c1 by simp
  have m: "map (\<lambda>j. 1 + (count ?d + word_of_nat j) mod (n - 1)) [1..<Suc (Suc k)] =
      (1 + (count ?d + 1) mod (n - 1)) #
      map (\<lambda>j. 1 + (count ?d + 1 + word_of_nat j) mod (n - 1)) [1..<Suc k]"
  proof -
    have e: "[1..<Suc (Suc k)] = 1 # map Suc [1..<Suc k]"
      by (metis One_nat_def map_Suc_upt upt_conv_Cons zero_less_Suc Suc_less_eq)
    show ?thesis unfolding e by (simp del: upt_Suc add: comp_def ac_simps)
  qed
  have f: "(if k = 0 then ?w1 else ?w1\<lparr>heap := (heap ?w1)[p := (heap ?w1 ! p)\<lparr>count := count ?d + 1 + word_of_nat k\<rparr>]\<rparr>)
      = w\<lparr>heap := (heap w)[p := ?d\<lparr>count := count ?d + word_of_nat (Suc k)\<rparr>]\<rparr>"
    using Suc.prems by (simp add: ac_simps)
  show ?case
    unfolding m using s ih f by simp
qed

lemma word_of_nat_mod_pred:
  fixes n :: "64 word"
  assumes "1 <s n" "j < 2 ^ 64"
  shows "(word_of_nat j :: 64 word) mod (n - 1) = word_of_nat (j mod (nat (sint n) - 1))"
proof -
  have k: "1 < sint n" using assms by (simp add: word_sless_alt)
  have u: "sint n < 2 ^ 63" using sint_lt [of n] by simp
  have a: "unat (n - 1) = nat (sint n) - 1"
    using uint_pred_of_sless [OF assms(1)] k by (simp add: unat_eq_nat_uint nat_diff_distrib)
  have b: "unat (word_of_nat j :: 64 word) = j" using assms(2) by (simp add: unat_of_nat)
  have "j mod (nat (sint n) - 1) < 2 ^ 64"
    using assms(2) by (meson le_less_trans mod_less_eq_dividend)
  then have c: "unat (word_of_nat (j mod (nat (sint n) - 1)) :: 64 word) = j mod (nat (sint n) - 1)"
    by (simp add: unat_of_nat)
  have "unat ((word_of_nat j :: 64 word) mod (n - 1)) = j mod (nat (sint n) - 1)"
    by (simp add: unat_mod a b)
  then show ?thesis using c by (simp add: word_unat_eq_iff)
qed

text \<open>
  C2 (amended).  With \<open>n \<ge> 2\<close> targets and a counter that starts at zero, the \<open>j\<close>-th of
  fewer than \<open>2^64\<close> successive calls returns \<open>1 + (j mod (n - 1))\<close>, for \<open>j = 1, 2, \<dots>\<close>:
  the indices 1 to \<open>n - 1\<close> in a repeating cycle of length \<open>n - 1\<close> that begins at
  \<open>1 + (1 mod (n - 1))\<close>, since the selector uses the counter after the increment.  For
  \<open>n = 3\<close> the sequence is 2, 1, 2, 1, \<dots> and for \<open>n = 4\<close> it is 2, 3, 1, 2, 3, 1, \<dots>
\<close>

theorem slave_cycle:
  assumes "1 <s n" "p < length (heap w)" "count (heap w ! p) = 0" "k < 2 ^ 64"
  shows "\<exists>w'. slave_calls k p n w =
           Inr (map (\<lambda>j. 1 + word_of_nat (j mod (nat (sint n) - 1))) [1..<Suc k], w')"
proof -
  have "map (\<lambda>j. 1 + (count (heap w ! p) + word_of_nat j) mod (n - 1)) [1..<Suc k] =
        map (\<lambda>j. 1 + word_of_nat (j mod (nat (sint n) - 1))) [1..<Suc k]"
  proof (rule map_cong [OF refl])
    fix j assume "j \<in> set [1..<Suc k]"
    then have "j < Suc k" by (simp only: set_upt atLeastLessThan_iff)
    then have "j < 2 ^ 64" using assms(4) by linarith
    then show "1 + (count (heap w ! p) + word_of_nat j) mod (n - 1) =
               1 + word_of_nat (j mod (nat (sint n) - 1))"
      using word_of_nat_mod_pred [OF assms(1)] assms(3) by simp
  qed
  then show ?thesis using slave_calls_many [OF assms(1,2), of k] by simp
qed

theorem slave_cycle_witness:
  "(1 :: 64 word) <s 4 \<and>
   (0 :: nat) < length (heap \<lparr>heap = [\<lparr>conns = [Some ''A'', Some ''B'', Some ''C'', Some ''D''], count = 0\<rparr>],
                              trace = ([] :: (string, unit, unit) call list)\<rparr>) \<and>
   count (heap \<lparr>heap = [\<lparr>conns = [Some ''A'', Some ''B'', Some ''C'', Some ''D''], count = 0\<rparr>],
                 trace = ([] :: (string, unit, unit) call list)\<rparr> ! 0) = 0 \<and>
   (6 :: nat) < 2 ^ 64 \<and>
   (\<exists>w'. slave_calls 6 0 4 \<lparr>heap = [\<lparr>conns = [Some ''A'', Some ''B'', Some ''C'', Some ''D''], count = 0\<rparr>],
                              trace = ([] :: (string, unit, unit) call list)\<rparr> =
            Inr ([2, 3, 1, 2, 3, 1], w'))"
proof -
  let ?w = "\<lparr>heap = [\<lparr>conns = [Some ''A'', Some ''B'', Some ''C'', Some ''D''], count = 0\<rparr>],
             trace = ([] :: (string, unit, unit) call list)\<rparr>"
  have h: "(1 :: 64 word) <s 4" "(0 :: nat) < length (heap ?w)" "count (heap ?w ! 0) = 0"
    "(6 :: nat) < 2 ^ 64"
    by (simp_all add: word_sless_alt)
  have m: "map (\<lambda>j. 1 + word_of_nat (j mod (nat (sint (4 :: 64 word)) - 1))) [1..<Suc 6] =
           [2, 3, 1, 2, 3, 1 :: 64 word]"
    by code_simp
  show ?thesis
    using h slave_cycle [OF h] unfolding m by simp
qed

text \<open>
  The sequence the claim gives for \<open>n = 3\<close> begins at 1; the selector begins at 2.
\<close>

theorem slave_cycle_counterexample:
  "slave_calls 6 0 3 \<lparr>heap = [\<lparr>conns = [Some ''A'', Some ''B'', Some ''C''], count = 0\<rparr>],
                       trace = ([] :: (string, unit, unit) call list)\<rparr> =
     Inr ([2, 1, 2, 1, 2, 1],
          \<lparr>heap = [\<lparr>conns = [Some ''A'', Some ''B'', Some ''C''], count = 6\<rparr>], trace = []\<rparr>)"
  by code_simp

text \<open>
  C9 (amended).  With \<open>n \<ge> 2\<close> a call of the selector on an allocated handle adds one to
  the counter of that handle, wrapping at \<open>2^64\<close>, and changes nothing else: not the
  connections of the handle, no other handle, not the recorded collaborator calls.  With
  \<open>n \<le> 1\<close> a call returns 0 and changes nothing at all: the counter keeps its value.
\<close>

theorem slave_counter:
  "(n \<le>s 1 \<longrightarrow> slave p n w = Inr (0, w)) \<and>
   (1 <s n \<and> p < length (heap w) \<longrightarrow>
      (\<exists>i w'. slave p n w = Inr (i, w') \<and>
         count (heap w' ! p) = count (heap w ! p) + 1 \<and>
         conns (heap w' ! p) = conns (heap w ! p) \<and>
         length (heap w') = length (heap w) \<and>
         (\<forall>q. q \<noteq> p \<longrightarrow> heap w' ! q = heap w ! q) \<and>
         trace w' = trace w))"
proof (intro conjI impI)
  assume "n \<le>s 1"
  then show "slave p n w = Inr (0, w)" by (rule slave_few)
next
  assume a: "1 <s n \<and> p < length (heap w)"
  let ?w' = "w\<lparr>heap := (heap w)[p := (heap w ! p)\<lparr>count := count (heap w ! p) + 1\<rparr>]\<rparr>"
  have "slave p n w = Inr (1 + (count (heap w ! p) + 1) mod (n - 1), ?w')"
    using a slave_many by blast
  moreover have "count (heap ?w' ! p) = count (heap w ! p) + 1"
    "conns (heap ?w' ! p) = conns (heap w ! p)"
    "length (heap ?w') = length (heap w)"
    "\<forall>q. q \<noteq> p \<longrightarrow> heap ?w' ! q = heap w ! q"
    "trace ?w' = trace w"
    using a by simp_all
  ultimately show "\<exists>i w'. slave p n w = Inr (i, w') \<and>
         count (heap w' ! p) = count (heap w ! p) + 1 \<and>
         conns (heap w' ! p) = conns (heap w ! p) \<and>
         length (heap w') = length (heap w) \<and>
         (\<forall>q. q \<noteq> p \<longrightarrow> heap w' ! q = heap w ! q) \<and>
         trace w' = trace w"
    by blast
qed

theorem slave_counter_witness:
  "(1 :: 64 word) <s 3 \<and>
   (0 :: nat) < length (heap \<lparr>heap = [\<lparr>conns = [Some ''A'', Some ''B'', Some ''C''], count = - 1\<rparr>],
                              trace = ([] :: (string, unit, unit) call list)\<rparr>) \<and>
   (\<exists>i w'. slave 0 3 \<lparr>heap = [\<lparr>conns = [Some ''A'', Some ''B'', Some ''C''], count = - 1\<rparr>],
                       trace = ([] :: (string, unit, unit) call list)\<rparr> = Inr (i, w') \<and>
            count (heap w' ! 0) = 0 \<and> conns (heap w' ! 0) = [Some ''A'', Some ''B'', Some ''C''] \<and>
            trace w' = []) \<and>
   (0 :: 64 word) \<le>s 1 \<and>
   slave 0 0 \<lparr>heap = [\<lparr>conns = [], count = 9\<rparr>],
               trace = ([] :: (string, unit, unit) call list)\<rparr> =
     Inr (0, \<lparr>heap = [\<lparr>conns = [], count = 9\<rparr>], trace = []\<rparr>)"
proof -
  let ?w = "\<lparr>heap = [\<lparr>conns = [Some ''A'', Some ''B'', Some ''C''], count = - 1\<rparr>],
             trace = ([] :: (string, unit, unit) call list)\<rparr>"
  let ?v = "\<lparr>heap = [\<lparr>conns = [], count = 9\<rparr>],
             trace = ([] :: (string, unit, unit) call list)\<rparr>"
  have h: "(1 :: 64 word) <s 3" "(0 :: nat) < length (heap ?w)" "(0 :: 64 word) \<le>s 1"
    by (simp_all add: word_sless_alt word_sle_eq)
  show ?thesis
    using h slave_counter [of 3 0 ?w] slave_counter [of 0 0 ?v] by simp blast
qed

text \<open>With one target the counter stays as it is.\<close>

theorem slave_counter_counterexample:
  "slave 0 1 \<lparr>heap = [\<lparr>conns = [Some ''A''], count = 7\<rparr>],
               trace = ([] :: (string, unit, unit) call list)\<rparr> =
     Inr (0, \<lparr>heap = [\<lparr>conns = [Some ''A''], count = 7\<rparr>], trace = []\<rparr>)"
  by (simp add: slave_def word_sle_eq)

section \<open>Properties of the fan-out executor\<close>

lemma last_failure_Nil: "last_failure [] = None"
  by (simp add: last_failure_def)

lemma last_failure_snoc:
  "last_failure (rs @ [r]) = (if r \<noteq> None then r else last_failure rs)"
  by (simp add: last_failure_def)

lemma last_failure_None_iff: "last_failure rs = None \<longleftrightarrow> (\<forall>r \<in> set rs. r = None)"
proof (induction rs rule: rev_induct)
  case Nil
  show ?case by (simp add: last_failure_Nil)
next
  case (snoc r rs)
  then show ?case by (auto simp add: last_failure_snoc)
qed

lemma last_failure_mem: "last_failure rs \<noteq> None \<Longrightarrow> last_failure rs \<in> set rs"
proof (induction rs rule: rev_induct)
  case Nil
  then show ?case by (simp add: last_failure_Nil)
next
  case (snoc r rs)
  then show ?case by (auto simp add: last_failure_snoc split: if_splits)
qed

lemma last_failure_split:
  "last_failure (pre @ Some e # post) = Some e" if "\<forall>r \<in> set post. r = None"
  using that by (simp add: last_failure_def filter_empty_conv[THEN iffD2])

lemma mset_remove1_mem: "x \<in> set xs \<Longrightarrow> add_mset x (mset (remove1 x xs)) = mset xs"
  by simp

lemma length_remove1_mem: "x \<in> set xs \<Longrightarrow> Suc (length (remove1 x xs)) = length xs"
  by (simp add: length_remove1) (cases xs; auto)

lemma scan_inv_init: "scan_inv n (scan_init \<sigma>)"
  by (simp add: scan_inv_def scan_init_def last_failure_Nil)

lemma scan_invD:
  assumes "scan_inv n s"
  shows "pc_ok n (pc s)"
    and "mset (ready s) + mset (map fst (sending s @ chan s @ recvd s)) =
           mset [0..<spawned n (pc s)]"
    and "mset (calls s) = mset (map fst (sending s @ chan s @ recvd s))"
    and "length (recvd s) = received n (pc s)"
    and "err s = last_failure (map snd (recvd s))"
  using assms by (simp_all add: scan_inv_def)

lemma scan_step_Main_inv:
  assumes "scan_inv n s" "scan_step n fn Main s = Some s'"
  shows "scan_inv n s'"
proof (cases "pc s")
  case (Spawn i)
  note inv = scan_invD [OF assms(1), unfolded Spawn spawned.simps received.simps pc_ok.simps]
  show ?thesis
  proof (cases "i < n")
    case True
    then have s': "s' = s\<lparr>pc := Spawn (Suc i), ready := ready s @ [i]\<rparr>"
      using assms(2) Spawn by simp
    show ?thesis using inv True unfolding s' scan_inv_def by (simp del: mset_upt)
  next
    case False
    then have s': "s' = s\<lparr>pc := Recv 0\<rparr>" using assms(2) Spawn by simp
    have "i = n" using inv(1) False by simp
    then show ?thesis using inv unfolding s' scan_inv_def by (simp del: mset_upt)
  qed
next
  case (Recv i)
  note inv = scan_invD [OF assms(1), unfolded Recv spawned.simps received.simps pc_ok.simps]
  show ?thesis
  proof (cases "i < n")
    case True
    then obtain k r q where c: "chan s = (k, r) # q"
      using assms(2) Recv by (cases "chan s") auto
    then have s': "s' = s\<lparr>pc := Recv (Suc i), chan := q,
                          err := (if r \<noteq> None then r else err s),
                          recvd := recvd s @ [(k, r)]\<rparr>"
      using assms(2) Recv True by simp
    show ?thesis using inv True unfolding s' scan_inv_def c
      by (simp del: mset_upt add: last_failure_snoc)
  next
    case False
    then have s': "s' = s\<lparr>pc := Ret\<rparr>" using assms(2) Recv by simp
    have "i = n" using inv(1) False by simp
    then show ?thesis using inv unfolding s' scan_inv_def by (simp del: mset_upt)
  qed
next
  case Ret
  then show ?thesis using assms(2) by simp
qed

lemma scan_step_Go_inv:
  assumes "scan_inv n s" "scan_step n fn (Go k) s = Some s'"
  shows "scan_inv n s'"
proof (cases "k \<in> set (ready s)")
  case True
  note inv = scan_invD [OF assms(1)]
  obtain r \<sigma> where f: "fn k (store s) = (r, \<sigma>)" by (cases "fn k (store s)")
  have s': "s' = s\<lparr>ready := remove1 k (ready s), sending := sending s @ [(k, r)],
                    store := \<sigma>, calls := calls s @ [k]\<rparr>"
    using assms(2) True f by simp
  have m: "mset (ready s) = add_mset k (mset (remove1 k (ready s)))"
    using True by simp
  define R where "R = mset (remove1 k (ready s))"
  have R: "mset (remove1 k (ready s)) = R" "mset (ready s) = add_mset k R"
    using m by (simp_all only: R_def)
  show ?thesis using inv unfolding s' scan_inv_def
    by (simp del: mset_upt mset_remove1 add: R)
next
  case False
  note inv = scan_invD [OF assms(1)]
  from False obtain r where mo: "map_of (sending s) k = Some r" and l: "length (chan s) < n"
    and s': "s' = s\<lparr>sending := remove1 (k, r) (sending s), chan := chan s @ [(k, r)]\<rparr>"
    using assms(2) by (auto split: option.splits if_splits)
  have "(k, r) \<in> set (sending s)" using mo by (rule map_of_SomeD)
  then have m: "mset (sending s) = add_mset (k, r) (mset (remove1 (k, r) (sending s)))"
    by simp
  define S where "S = mset (map fst (remove1 (k, r) (sending s)))"
  have "mset (map fst (sending s)) = add_mset k (mset (map fst (remove1 (k, r) (sending s))))"
    using arg_cong [OF m, of "image_mset fst"] by simp
  then have S: "mset (map fst (remove1 (k, r) (sending s))) = S"
      "mset (map fst (sending s)) = add_mset k S"
    by (simp_all only: S_def)
  show ?thesis using inv unfolding s' scan_inv_def
    by (simp del: mset_upt mset_remove1 mset_map add: S)
qed

lemma scan_step_inv: "scan_inv n s \<Longrightarrow> scan_step n fn a s = Some s' \<Longrightarrow> scan_inv n s'"
  by (cases a) (auto intro: scan_step_Main_inv scan_step_Go_inv)

lemma scan_exec_inv: "scan_inv n s \<Longrightarrow> scan_exec n fn sch s = Some s' \<Longrightarrow> scan_inv n s'"
proof (induction sch arbitrary: s)
  case Nil
  then show ?case by simp
next
  case (Cons a sch)
  then show ?case by (auto split: option.splits dest: scan_step_inv)
qed

lemma scan_step_measure:
  assumes "scan_step n fn a s = Some s'"
  shows "scan_measure n s' < scan_measure n s"
proof (cases a)
  case Main
  show ?thesis
  proof (cases "pc s")
    case (Spawn i)
    then show ?thesis using assms Main
      by (auto simp add: scan_measure_def split: if_splits)
  next
    case (Recv i)
    then show ?thesis using assms Main
      by (auto simp add: scan_measure_def split: if_splits list.splits)
  next
    case Ret
    then show ?thesis using assms Main by simp
  qed
next
  case (Go k)
  show ?thesis
  proof (cases "k \<in> set (ready s)")
    case True
    obtain r \<sigma> where f: "fn k (store s) = (r, \<sigma>)" by (cases "fn k (store s)")
    have l: "Suc (length (remove1 k (ready s))) = length (ready s)"
      using True by (rule length_remove1_mem)
    have s': "s' = s\<lparr>ready := remove1 k (ready s), sending := sending s @ [(k, r)],
                      store := \<sigma>, calls := calls s @ [k]\<rparr>"
      using assms Go True f by simp
    show ?thesis using l unfolding s' by (simp add: scan_measure_def)
  next
    case False
    then obtain r where mo: "map_of (sending s) k = Some r"
      and s': "s' = s\<lparr>sending := remove1 (k, r) (sending s), chan := chan s @ [(k, r)]\<rparr>"
      using assms Go by (auto split: option.splits if_splits)
    have "(k, r) \<in> set (sending s)" using mo by (rule map_of_SomeD)
    then have "Suc (length (remove1 (k, r) (sending s))) = length (sending s)"
      by (rule length_remove1_mem)
    then show ?thesis unfolding s' by (simp add: scan_measure_def)
  qed
qed

lemma scan_exec_length:
  "scan_exec n fn sch s = Some s' \<Longrightarrow> length sch + scan_measure n s' \<le> scan_measure n s"
proof (induction sch arbitrary: s)
  case Nil
  then show ?case by simp
next
  case (Cons a sch)
  then obtain s1 where a: "scan_step n fn a s = Some s1" and b: "scan_exec n fn sch s1 = Some s'"
    by (auto split: option.splits)
  show ?case using Cons.IH [OF b] scan_step_measure [OF a] by simp
qed

lemma scan_exec_append:
  "scan_exec n fn (xs @ ys) s =
     (case scan_exec n fn xs s of None \<Rightarrow> None | Some s' \<Rightarrow> scan_exec n fn ys s')"
  by (induction xs arbitrary: s) (auto split: option.splits)

lemma scan_inv_sizes:
  assumes "scan_inv n s"
  shows "length (ready s) + length (sending s) + length (chan s) + length (recvd s) =
         spawned n (pc s)"
proof -
  have "size (mset (ready s) + mset (map fst (sending s @ chan s @ recvd s))) =
        size (mset [0..<spawned n (pc s)])"
    using scan_invD(2) [OF assms] by (simp only:)
  then show ?thesis by simp
qed

lemma scan_progress:
  assumes "scan_inv n s" "pc s \<noteq> Ret"
  shows "\<exists>a s'. scan_step n fn a s = Some s'"
proof (cases "pc s")
  case (Spawn i)
  then have "scan_step n fn Main s \<noteq> None" by simp
  then show ?thesis by blast
next
  case (Recv i)
  note sz = scan_inv_sizes [OF assms(1), unfolded Recv spawned.simps]
  note rc = scan_invD(4) [OF assms(1), unfolded Recv received.simps]
  show ?thesis
  proof (cases "i < n")
    case False
    then have "scan_step n fn Main s \<noteq> None" using Recv by simp
    then show ?thesis by blast
  next
    case True
    show ?thesis
    proof (cases "chan s")
      case (Cons x q)
      then have "scan_step n fn Main s \<noteq> None" using Recv True by (cases x) simp
      then show ?thesis by blast
    next
      case Nil
      show ?thesis
      proof (cases "ready s")
        case (Cons k ks)
        then have "scan_step n fn (Go k) s \<noteq> None"
          by (simp add: case_prod_beta Let_def)
        then show ?thesis by blast
      next
        case rn: Nil
        have "sending s \<noteq> []" using sz rc True Nil rn by auto
        then obtain k r xs where sn: "sending s = (k, r) # xs"
          by (cases "sending s") auto
        have "0 < n" using True by simp
        then have "scan_step n fn (Go k) s \<noteq> None" using rn sn Nil by simp
        then show ?thesis by blast
      qed
    qed
  qed
next
  case Ret
  then show ?thesis using assms(2) by simp
qed

lemma scan_completes:
  assumes "scan_inv n s"
  shows "\<exists>sch s'. scan_exec n fn sch s = Some s' \<and> pc s' = Ret"
  using assms
proof (induction "scan_measure n s" arbitrary: s rule: less_induct)
  case less
  show ?case
  proof (cases "pc s = Ret")
    case True
    then have "scan_exec n fn [] s = Some s \<and> pc s = Ret" by simp
    then show ?thesis by blast
  next
    case False
    then obtain a s1 where a: "scan_step n fn a s = Some s1"
      using scan_progress [OF less.prems] by blast
    have "scan_inv n s1" using less.prems a by (rule scan_step_inv)
    then obtain sch s' where "scan_exec n fn sch s1 = Some s'" "pc s' = Ret"
      using less.hyps [OF scan_step_measure [OF a]] by blast
    then have "scan_exec n fn (a # sch) s = Some s' \<and> pc s' = Ret" using a by simp
    then show ?thesis by blast
  qed
qed

lemma scan_inv_Ret:
  assumes "scan_inv n s" "pc s = Ret"
  shows "ready s = []" "sending s = []" "chan s = []"
    "mset (map fst (recvd s)) = mset [0..<n]" "mset (calls s) = mset [0..<n]"
proof -
  note sz = scan_inv_sizes [OF assms(1), unfolded assms(2) spawned.simps]
  note rc = scan_invD(4) [OF assms(1), unfolded assms(2) received.simps]
  show e: "ready s = []" "sending s = []" "chan s = []" using sz rc by simp_all
  show r: "mset (map fst (recvd s)) = mset [0..<n]"
    using scan_invD(2) [OF assms(1)] e assms(2) by (simp del: mset_upt)
  show "mset (calls s) = mset [0..<n]"
    using scan_invD(3) [OF assms(1)] e r by (simp del: mset_upt)
qed

lemma scan_inv_calls:
  assumes "scan_inv n s"
  shows "distinct (calls s)" "set (calls s) \<subseteq> {0..<n}" "distinct (ready s @ calls s)"
    "set (ready s) \<subseteq> {0..<n}"
proof -
  have e: "mset (ready s @ calls s) = mset [0..<spawned n (pc s)]"
    using scan_invD(2,3) [OF assms] by (simp del: mset_upt)
  have "distinct [0..<spawned n (pc s)]" by simp
  then show d: "distinct (ready s @ calls s)" using e by (metis mset_eq_imp_distinct_iff)
  then show "distinct (calls s)" by simp
  have le: "spawned n (pc s) \<le> n" using scan_invD(1) [OF assms] by (cases "pc s") simp_all
  have "set (ready s @ calls s) = set [0..<spawned n (pc s)]" using e by (rule mset_eq_setD)
  then have u: "set (ready s) \<union> set (calls s) = {0..<spawned n (pc s)}" by simp
  show "set (calls s) \<subseteq> {0..<n}"
  proof
    fix x assume "x \<in> set (calls s)"
    then have "x \<in> {0..<spawned n (pc s)}" using u by blast
    then show "x \<in> {0..<n}" using le by simp
  qed
  show "set (ready s) \<subseteq> {0..<n}"
  proof
    fix x assume "x \<in> set (ready s)"
    then have "x \<in> {0..<spawned n (pc s)}" using u by blast
    then show "x \<in> {0..<n}" using le by simp
  qed
qed

lemma scan_step_outcomes:
  assumes "\<forall>k \<sigma>. fst (fn k \<sigma>) = out k"
    and "\<forall>x \<in> set (sending s @ chan s @ recvd s). snd x = out (fst x)"
    and "scan_step n fn a s = Some s'"
  shows "\<forall>x \<in> set (sending s' @ chan s' @ recvd s'). snd x = out (fst x)"
proof (cases a)
  case Main
  show ?thesis
  proof (cases "pc s")
    case (Spawn i)
    then show ?thesis using assms(2,3) Main by (auto split: if_splits)
  next
    case (Recv i)
    then show ?thesis using assms(2,3) Main by (auto split: if_splits list.splits)
  next
    case Ret
    then show ?thesis using assms(3) Main by simp
  qed
next
  case (Go k)
  show ?thesis
  proof (cases "k \<in> set (ready s)")
    case True
    obtain r \<sigma> where f: "fn k (store s) = (r, \<sigma>)" by (cases "fn k (store s)")
    have "r = out k" using assms(1) f by (metis fst_conv)
    moreover have "s' = s\<lparr>ready := remove1 k (ready s), sending := sending s @ [(k, r)],
                      store := \<sigma>, calls := calls s @ [k]\<rparr>"
      using assms(3) Go True f by simp
    ultimately show ?thesis using assms(2) by auto
  next
    case False
    then obtain r where mo: "map_of (sending s) k = Some r"
      and s': "s' = s\<lparr>sending := remove1 (k, r) (sending s), chan := chan s @ [(k, r)]\<rparr>"
      using assms(3) Go by (auto split: option.splits if_splits)
    have m: "(k, r) \<in> set (sending s)" using mo by (rule map_of_SomeD)
    then have "snd (k, r) = out (fst (k, r))" using assms(2) by (metis UnCI set_append)
    then have "r = out k" by simp
    moreover have "set (remove1 (k, r) (sending s)) \<subseteq> set (sending s)"
      by (rule set_remove1_subset)
    ultimately show ?thesis using assms(2) unfolding s' by auto
  qed
qed

lemma scan_exec_outcomes:
  assumes "\<forall>k \<sigma>. fst (fn k \<sigma>) = out k"
  shows "\<forall>x \<in> set (sending s @ chan s @ recvd s). snd x = out (fst x) \<Longrightarrow>
    scan_exec n fn sch s = Some s' \<Longrightarrow>
    \<forall>x \<in> set (sending s' @ chan s' @ recvd s'). snd x = out (fst x)"
proof (induction sch arbitrary: s)
  case Nil
  then show ?case by simp
next
  case (Cons a sch)
  then obtain s1 where a: "scan_step n fn a s = Some s1" and b: "scan_exec n fn sch s1 = Some s'"
    by (auto split: option.splits)
  show ?case using Cons.IH [OF scan_step_outcomes [OF assms Cons.prems(1) a] b] .
qed

lemma scan_step_store:
  assumes "scan_inv n s" "P (calls s) (store s)" "scan_step n fn a s = Some s'"
    and step: "\<And>cs \<sigma> k. P cs \<sigma> \<Longrightarrow> k < n \<Longrightarrow> k \<notin> set cs \<Longrightarrow> P (cs @ [k]) (snd (fn k \<sigma>))"
  shows "P (calls s') (store s')"
proof (cases a)
  case Main
  show ?thesis
  proof (cases "pc s")
    case (Spawn i)
    then show ?thesis using assms(2,3) Main by (auto split: if_splits)
  next
    case (Recv i)
    then show ?thesis using assms(2,3) Main by (auto split: if_splits list.splits)
  next
    case Ret
    then show ?thesis using assms(3) Main by simp
  qed
next
  case (Go k)
  show ?thesis
  proof (cases "k \<in> set (ready s)")
    case True
    obtain r \<sigma> where f: "fn k (store s) = (r, \<sigma>)" by (cases "fn k (store s)")
    have s': "s' = s\<lparr>ready := remove1 k (ready s), sending := sending s @ [(k, r)],
                      store := \<sigma>, calls := calls s @ [k]\<rparr>"
      using assms(3) Go True f by simp
    have "k < n" using scan_inv_calls(4) [OF assms(1)] True by auto
    moreover have "k \<notin> set (calls s)" using scan_inv_calls(3) [OF assms(1)] True by auto
    ultimately have "P (calls s @ [k]) (snd (fn k (store s)))" using step assms(2) by blast
    then show ?thesis unfolding s' using f by simp
  next
    case False
    then obtain r where
      s': "s' = s\<lparr>sending := remove1 (k, r) (sending s), chan := chan s @ [(k, r)]\<rparr>"
      using assms(3) Go by (auto split: option.splits if_splits)
    show ?thesis unfolding s' using assms(2) by simp
  qed
qed

lemma scan_exec_store:
  assumes step: "\<And>cs \<sigma> k. P cs \<sigma> \<Longrightarrow> k < n \<Longrightarrow> k \<notin> set cs \<Longrightarrow> P (cs @ [k]) (snd (fn k \<sigma>))"
  shows "scan_inv n s \<Longrightarrow> P (calls s) (store s) \<Longrightarrow> scan_exec n fn sch s = Some s' \<Longrightarrow>
    P (calls s') (store s')"
proof (induction sch arbitrary: s)
  case Nil
  then show ?case by simp
next
  case (Cons a sch)
  then obtain s1 where a: "scan_step n fn a s = Some s1" and b: "scan_exec n fn sch s1 = Some s'"
    by (auto split: option.splits)
  have "scan_inv n s1" using Cons.prems(1) a by (rule scan_step_inv)
  moreover have "P (calls s1) (store s1)"
    using scan_step_store [of n s P fn a s1] Cons.prems(1,2) a step by blast
  ultimately show ?case using Cons.IH b by blast
qed

lemma scan_Returns_iff:
  "scan lim sch n fn \<sigma> = Returns r \<longleftrightarrow>
     0 \<le> n \<and> n \<le> lim \<and>
     (\<exists>s. scan_exec (nat n) fn sch (scan_init \<sigma>) = Some s \<and> pc s = Ret \<and>
          r = (err s, store s))"
  by (auto simp add: scan_def split: option.splits)

lemma scan_Panics: "n < 0 \<or> lim < n \<Longrightarrow> scan lim sch n fn \<sigma> = Panics MakeChanSize"
  by (simp add: scan_def)

lemma scan_can_return:
  assumes "0 \<le> n" "n \<le> lim"
  shows "\<exists>sch e \<sigma>'. scan lim sch n fn \<sigma> = Returns (e, \<sigma>')"
proof -
  have "\<exists>sch s. scan_exec (nat n) fn sch (scan_init \<sigma>) = Some s \<and> pc s = Ret"
    by (rule scan_completes [OF scan_inv_init])
  then obtain sch s where "scan_exec (nat n) fn sch (scan_init \<sigma>) = Some s" "pc s = Ret"
    by blast
  then have "scan lim sch n fn \<sigma> = Returns (err s, store s)"
    using assms by (simp add: scan_def)
  then show ?thesis by blast
qed

lemma scan_none: "0 \<le> lim \<Longrightarrow> scan lim [Main, Main] 0 fn \<sigma> = Returns (None, \<sigma>)"
  by (simp add: scan_def scan_init_def)

lemma scan_len_Returns_iff:
  "scan_len sch k fn \<sigma> = Returns r \<longleftrightarrow>
     (\<exists>s. scan_exec k fn sch (scan_init \<sigma>) = Some s \<and> pc s = Ret \<and> r = (err s, store s))"
  by (simp add: scan_len_def scan_Returns_iff)

lemma scan_len_can_return: "\<exists>sch e \<sigma>'. scan_len sch k fn \<sigma> = Returns (e, \<sigma>')"
  unfolding scan_len_def by (rule scan_can_return) simp_all

lemma scan_len_no_panic: "scan_len sch k fn \<sigma> \<noteq> Panics f"
  by (simp add: scan_len_def scan_def split: option.splits)

lemma effects_Nil: "effects fn [] \<sigma> = \<sigma>"
  by (simp add: effects_def)

lemma effects_snoc: "effects fn (cs @ [k]) \<sigma> = snd (fn k (effects fn cs \<sigma>))"
  by (simp add: effects_def)

lemma outcomes_Nil: "outcomes fn [] \<sigma> = []"
  by (simp add: outcomes_def)

lemma outcomes_snoc:
  "outcomes fn (cs @ [k]) \<sigma> = outcomes fn cs \<sigma> @ [(k, fst (fn k (effects fn cs \<sigma>)))]"
proof -
  have "map (\<lambda>j. ((cs @ [k]) ! j, fst (fn ((cs @ [k]) ! j) (effects fn (take j (cs @ [k])) \<sigma>))))
          [0..<length cs] =
        map (\<lambda>j. (cs ! j, fst (fn (cs ! j) (effects fn (take j cs) \<sigma>)))) [0..<length cs]"
    by (rule map_cong [OF refl]) (simp add: nth_append)
  then show ?thesis by (simp add: outcomes_def)
qed

lemma map_fst_outcomes: "map fst (outcomes fn cs \<sigma>) = cs"
  by (simp add: outcomes_def comp_def map_nth)

text \<open>
  In every state the memory is what the calls made so far leave, and the values on their
  way to the caller or received by it are the outcomes of those calls.
\<close>

lemma scan_step_effects:
  assumes "store s = effects fn (calls s) \<sigma>"
    and "mset (sending s @ chan s @ recvd s) = mset (outcomes fn (calls s) \<sigma>)"
    and "scan_step n fn a s = Some s'"
  shows "store s' = effects fn (calls s') \<sigma> \<and>
         mset (sending s' @ chan s' @ recvd s') = mset (outcomes fn (calls s') \<sigma>)"
proof (cases a)
  case Main
  show ?thesis
  proof (cases "pc s")
    case (Spawn i)
    then show ?thesis using assms Main by (auto split: if_splits)
  next
    case (Recv i)
    show ?thesis
    proof (cases "i < n")
      case True
      then obtain k r q where c: "chan s = (k, r) # q"
        using assms(3) Recv Main by (cases "chan s") auto
      then have s': "s' = s\<lparr>pc := Recv (Suc i), chan := q,
                            err := (if r \<noteq> None then r else err s),
                            recvd := recvd s @ [(k, r)]\<rparr>"
        using assms(3) Recv True Main by simp
      show ?thesis using assms(1,2) unfolding s' c by simp
    next
      case False
      then have "s' = s\<lparr>pc := Ret\<rparr>" using assms(3) Recv Main by simp
      then show ?thesis using assms(1,2) by simp
    qed
  next
    case Ret
    then show ?thesis using assms(3) Main by simp
  qed
next
  case (Go k)
  show ?thesis
  proof (cases "k \<in> set (ready s)")
    case True
    obtain r v where f: "fn k (store s) = (r, v)" by (cases "fn k (store s)")
    have s': "s' = s\<lparr>ready := remove1 k (ready s), sending := sending s @ [(k, r)],
                      store := v, calls := calls s @ [k]\<rparr>"
      using assms(3) Go True f by simp
    have e: "fn k (effects fn (calls s) \<sigma>) = (r, v)" using f assms(1) by simp
    show ?thesis using assms(2) unfolding s'
      by (simp add: effects_snoc outcomes_snoc e)
  next
    case False
    then obtain r where mo: "map_of (sending s) k = Some r"
      and s': "s' = s\<lparr>sending := remove1 (k, r) (sending s), chan := chan s @ [(k, r)]\<rparr>"
      using assms(3) Go by (auto split: option.splits if_splits)
    have "(k, r) \<in> set (sending s)" using mo by (rule map_of_SomeD)
    then have m: "mset (sending s) = add_mset (k, r) (mset (remove1 (k, r) (sending s)))"
      by simp
    define S where "S = mset (remove1 (k, r) (sending s))"
    have S: "mset (remove1 (k, r) (sending s)) = S" "mset (sending s) = add_mset (k, r) S"
      using m by (simp_all only: S_def)
    have st: "store s' = store s" "calls s' = calls s" unfolding s' by simp_all
    have ms: "mset (sending s' @ chan s' @ recvd s') = mset (sending s @ chan s @ recvd s)"
      unfolding s' by (simp del: mset_remove1 add: S)
    show ?thesis unfolding st ms by (rule conjI [OF assms(1) assms(2)])
  qed
qed

lemma scan_exec_effects:
  "store s = effects fn (calls s) \<sigma> \<Longrightarrow>
   mset (sending s @ chan s @ recvd s) = mset (outcomes fn (calls s) \<sigma>) \<Longrightarrow>
   scan_exec n fn sch s = Some s' \<Longrightarrow>
   store s' = effects fn (calls s') \<sigma> \<and>
   mset (sending s' @ chan s' @ recvd s') = mset (outcomes fn (calls s') \<sigma>)"
proof (induction sch arbitrary: s)
  case Nil
  then show ?case by simp
next
  case (Cons a sch)
  from Cons.prems(3) obtain s1
    where a: "scan_step n fn a s = Some s1" and b: "scan_exec n fn sch s1 = Some s'"
    by (auto split: option.splits)
  have "store s1 = effects fn (calls s1) \<sigma> \<and>
        mset (sending s1 @ chan s1 @ recvd s1) = mset (outcomes fn (calls s1) \<sigma>)"
    using Cons.prems(1,2) a by (rule scan_step_effects)
  then show ?case using Cons.IH b by blast
qed

lemma scan_init_effects:
  "store (scan_init \<sigma> :: ('e, 's) scan_state) =
     effects fn (calls (scan_init \<sigma> :: ('e, 's) scan_state)) \<sigma>"
  "mset (sending (scan_init \<sigma> :: ('e, 's) scan_state) @ chan (scan_init \<sigma> :: ('e, 's) scan_state)
         @ recvd (scan_init \<sigma> :: ('e, 's) scan_state)) =
     mset (outcomes fn (calls (scan_init \<sigma> :: ('e, 's) scan_state)) \<sigma>)"
  by (simp_all add: scan_init_def effects_Nil outcomes_Nil)

text \<open>
  C3.  The executor panics when the count is negative or above the bound of \<^verbatim>\<open>make\<close>.
  For every other count it can run to its return, and with the count 0 it returns no
  failure after the two loop exits, without waiting for anything.  Whenever it returns,
  under any schedule, the operation has been called once for every index below the
  count, the values it has received are the outcomes of those calls, one per index, and
  the value it returns is the last failure in the order of reception: no failure
  exactly when every call has succeeded, and otherwise one of the failures, the other
  ones being dropped.  When the outcome of operation \<open>k\<close> is \<open>out k\<close> whatever the memory
  holds, it returns no failure exactly when \<open>out k\<close> is a success for every index \<open>k\<close>
  below the count.
\<close>

theorem scan_result:
  "(n < 0 \<or> lim < n \<longrightarrow> (\<forall>sch. scan lim sch n fn \<sigma> = Panics MakeChanSize)) \<and>
   (0 \<le> n \<and> n \<le> lim \<longrightarrow> (\<exists>sch e \<sigma>'. scan lim sch n fn \<sigma> = Returns (e, \<sigma>'))) \<and>
   (n = 0 \<and> 0 \<le> lim \<longrightarrow> scan lim [Main, Main] n fn \<sigma> = Returns (None, \<sigma>)) \<and>
   (\<forall>sch e \<sigma>'. scan lim sch n fn \<sigma> = Returns (e, \<sigma>') \<longrightarrow>
      (\<exists>s. scan_exec (nat n) fn sch (scan_init \<sigma>) = Some s \<and> pc s = Ret \<and>
           e = err s \<and> \<sigma>' = store s \<and>
           mset (calls s) = mset [0..<nat n] \<and>
           mset (recvd s) = mset (outcomes fn (calls s) \<sigma>) \<and>
           mset (map fst (recvd s)) = mset [0..<nat n] \<and>
           \<sigma>' = effects fn (calls s) \<sigma> \<and>
           e = last_failure (map snd (recvd s)) \<and>
           (e = None \<longleftrightarrow> (\<forall>x \<in> set (outcomes fn (calls s) \<sigma>). snd x = None)) \<and>
           (e \<noteq> None \<longrightarrow> e \<in> snd ` set (outcomes fn (calls s) \<sigma>)) \<and>
           ((\<forall>k v. fst (fn k v) = out k) \<longrightarrow>
              (\<forall>x \<in> set (recvd s). snd x = out (fst x)) \<and>
              (e = None \<longleftrightarrow> (\<forall>k < nat n. out k = None)) \<and>
              (e \<noteq> None \<longrightarrow> (\<exists>k < nat n. e = out k)))))"
proof (intro conjI allI impI)
  fix sch
  assume "n < 0 \<or> lim < n"
  then show "scan lim sch n fn \<sigma> = Panics MakeChanSize" by (rule scan_Panics)
next
  assume a: "0 \<le> n \<and> n \<le> lim"
  show "\<exists>sch e \<sigma>'. scan lim sch n fn \<sigma> = Returns (e, \<sigma>')"
    by (rule scan_can_return [OF conjunct1 [OF a] conjunct2 [OF a]])
next
  assume "n = 0 \<and> 0 \<le> lim"
  then show "scan lim [Main, Main] n fn \<sigma> = Returns (None, \<sigma>)" by (simp add: scan_none)
next
  fix sch e \<sigma>'
  assume "scan lim sch n fn \<sigma> = Returns (e, \<sigma>')"
  then obtain s where run: "scan_exec (nat n) fn sch (scan_init \<sigma>) = Some s"
    and ret: "pc s = Ret" and e: "e = err s" and st: "\<sigma>' = store s"
    unfolding scan_Returns_iff by auto
  have inv: "scan_inv (nat n) s" using scan_exec_inv [OF scan_inv_init run] .
  have ef: "store s = effects fn (calls s) \<sigma> \<and>
            mset (sending s @ chan s @ recvd s) = mset (outcomes fn (calls s) \<sigma>)"
    by (rule scan_exec_effects [OF scan_init_effects run])
  have c: "mset (calls s) = mset [0..<nat n]" using scan_inv_Ret(5) [OF inv ret] .
  have p: "mset (map fst (recvd s)) = mset [0..<nat n]" using scan_inv_Ret(4) [OF inv ret] .
  have r: "mset (recvd s) = mset (outcomes fn (calls s) \<sigma>)"
    using ef scan_inv_Ret(2,3) [OF inv ret] by simp
  have rs: "set (recvd s) = set (outcomes fn (calls s) \<sigma>)" using r by (rule mset_eq_setD)
  have l: "e = last_failure (map snd (recvd s))" using scan_invD(5) [OF inv] e by simp
  have n: "e = None \<longleftrightarrow> (\<forall>x \<in> set (outcomes fn (calls s) \<sigma>). snd x = None)"
    unfolding l rs [symmetric] by (simp add: last_failure_None_iff)
  have m: "e \<in> snd ` set (outcomes fn (calls s) \<sigma>)" if "e \<noteq> None"
    using that last_failure_mem [of "map snd (recvd s)"] unfolding l rs [symmetric] by simp
  have "set (map fst (recvd s)) = set [0..<nat n]" using p by (rule mset_eq_setD)
  then have fs: "fst ` set (recvd s) = {0..<nat n}" by simp
  have pu: "(\<forall>x \<in> set (recvd s). snd x = out (fst x)) \<and>
            (e = None \<longleftrightarrow> (\<forall>k < nat n. out k = None)) \<and>
            (e \<noteq> None \<longrightarrow> (\<exists>k < nat n. e = out k))"
    if pure: "\<forall>k v. fst (fn k v) = out k"
  proof -
    have "\<forall>x \<in> set (sending s @ chan s @ recvd s). snd x = out (fst x)"
      by (rule scan_exec_outcomes [OF pure _ run]) (simp add: scan_init_def)
    then have o: "\<forall>x \<in> set (recvd s). snd x = out (fst x)" by simp
    have sn: "snd ` set (recvd s) = out ` {0..<nat n}"
    proof -
      have "snd ` set (recvd s) = out ` fst ` set (recvd s)"
        using o by (force simp add: image_iff)
      then show ?thesis using fs by simp
    qed
    have a: "e = None \<longleftrightarrow> (\<forall>k < nat n. out k = None)"
    proof -
      have "e = None \<longleftrightarrow> (\<forall>y \<in> snd ` set (recvd s). y = None)"
        unfolding l by (simp add: last_failure_None_iff)
      then show ?thesis unfolding sn by auto
    qed
    have b: "\<exists>k < nat n. e = out k" if "e \<noteq> None"
    proof -
      have "e \<in> snd ` set (recvd s)" using m [OF that] rs by simp
      then have "e \<in> out ` {0..<nat n}" using sn by simp
      then show ?thesis by auto
    qed
    show ?thesis using o a b by blast
  qed
  show "\<exists>s. scan_exec (nat n) fn sch (scan_init \<sigma>) = Some s \<and> pc s = Ret \<and>
           e = err s \<and> \<sigma>' = store s \<and>
           mset (calls s) = mset [0..<nat n] \<and>
           mset (recvd s) = mset (outcomes fn (calls s) \<sigma>) \<and>
           mset (map fst (recvd s)) = mset [0..<nat n] \<and>
           \<sigma>' = effects fn (calls s) \<sigma> \<and>
           e = last_failure (map snd (recvd s)) \<and>
           (e = None \<longleftrightarrow> (\<forall>x \<in> set (outcomes fn (calls s) \<sigma>). snd x = None)) \<and>
           (e \<noteq> None \<longrightarrow> e \<in> snd ` set (outcomes fn (calls s) \<sigma>)) \<and>
           ((\<forall>k v. fst (fn k v) = out k) \<longrightarrow>
              (\<forall>x \<in> set (recvd s). snd x = out (fst x)) \<and>
              (e = None \<longleftrightarrow> (\<forall>k < nat n. out k = None)) \<and>
              (e \<noteq> None \<longrightarrow> (\<exists>k < nat n. e = out k)))"
  proof (intro exI [of _ s] conjI impI)
    show "scan_exec (nat n) fn sch (scan_init \<sigma>) = Some s" using run .
    show "pc s = Ret" using ret .
    show "e = err s" using e .
    show "\<sigma>' = store s" using st .
    show "mset (calls s) = mset [0..<nat n]" using c .
    show "mset (recvd s) = mset (outcomes fn (calls s) \<sigma>)" using r .
    show "mset (map fst (recvd s)) = mset [0..<nat n]" using p .
    show "\<sigma>' = effects fn (calls s) \<sigma>" using ef st by simp
    show "e = last_failure (map snd (recvd s))" using l .
    show "e = None \<longleftrightarrow> (\<forall>x \<in> set (outcomes fn (calls s) \<sigma>). snd x = None)" using n .
    show "e \<in> snd ` set (outcomes fn (calls s) \<sigma>)" if "e \<noteq> None" using m [OF that] .
    show "\<forall>x \<in> set (recvd s). snd x = out (fst x)" if "\<forall>k v. fst (fn k v) = out k"
      using pu [OF that] by blast
    show "e = None \<longleftrightarrow> (\<forall>k < nat n. out k = None)" if "\<forall>k v. fst (fn k v) = out k"
      using pu [OF that] by blast
    show "\<exists>k < nat n. e = out k" if "\<forall>k v. fst (fn k v) = out k" "e \<noteq> None"
      using pu [OF that(1)] that(2) by blast
  qed
qed

theorem scan_result_witness:
  "(\<forall>k u. fst ((\<lambda>k u. (if k = 0 then Some ''zero'' else Some ''one'', u)) k (u :: unit)) =
           (\<lambda>k. if k = (0 :: nat) then Some ''zero'' else Some ''one'') k) \<and>
   scan 8 [Main, Main, Main, Go 1, Go 0, Go 1, Go 0, Main, Main, Main] 2
     (\<lambda>k u. (if k = 0 then Some ''zero'' else Some ''one'', u)) () =
     Returns (Some ''zero'', ()) \<and>
   scan_exec (nat 2) (\<lambda>k u. (if k = 0 then Some ''zero'' else Some ''one'', u))
     [Main, Main, Main, Go 1, Go 0, Go 1, Go 0, Main, Main, Main] (scan_init ()) =
     Some \<lparr>pc = Ret, ready = [], sending = [], chan = [], err = Some ''zero'', store = (),
           calls = [1, 0], recvd = [(1, Some ''one''), (0, Some ''zero'')]\<rparr> \<and>
   last_failure [Some ''one'', Some ''zero''] = Some ''zero'' \<and>
   scan 8 [Main, Main] 0 (\<lambda>k u. (if k = 0 then Some ''zero'' else Some ''one'', u)) () =
     Returns (None, ()) \<and>
   scan 8 [Main, Main] 9 (\<lambda>k u. (if k = 0 then Some ''zero'' else Some ''one'', u)) () =
     Panics MakeChanSize \<and>
   scan 8 [] 2 (\<lambda>k u. (if k = 0 then Some ''zero'' else Some ''one'', u)) () = Unfinished"
proof -
  let ?fn = "\<lambda>(k :: nat) (u :: unit). (if k = 0 then Some ''zero'' else Some ''one'', u)"
  let ?out = "\<lambda>k. if k = (0 :: nat) then Some ''zero'' else Some ''one''"
  let ?sch = "[Main, Main, Main, Go 1, Go 0, Go 1, Go 0, Main, Main, Main]"
  let ?S = "\<lparr>pc = Ret, ready = [], sending = [], chan = [], err = Some ''zero'', store = (),
           calls = [1, 0], recvd = [(1, Some ''one''), (0 :: nat, Some ''zero'')]\<rparr>"
  have run: "scan_exec (nat 2) ?fn ?sch (scan_init ()) = Some ?S"
    by (simp add: scan_init_def)
  have ret: "scan 8 ?sch 2 ?fn () = Returns (Some ''zero'', ())"
    using run by (simp add: scan_def)
  note R = scan_result [of 2 8 ?fn "()" ?out]
  from R [THEN conjunct2, THEN conjunct2, THEN conjunct2, rule_format, OF ret]
  obtain s where s: "scan_exec (nat 2) ?fn ?sch (scan_init ()) = Some s"
    and l: "Some ''zero'' = last_failure (map snd (recvd s))"
    and pu: "(\<forall>k v. fst (?fn k v) = ?out k) \<longrightarrow>
             (\<forall>x \<in> set (recvd s). snd x = ?out (fst x)) \<and>
             (Some ''zero'' = None \<longleftrightarrow> (\<forall>k < nat 2. ?out k = None)) \<and>
             (Some ''zero'' \<noteq> None \<longrightarrow> (\<exists>k < nat 2. Some ''zero'' = ?out k))"
    by blast
  have pure: "\<forall>k v. fst (?fn k v) = ?out k" by simp
  then have "\<exists>k < nat 2. Some ''zero'' = ?out k" using pu by blast
  from s have "Some ?S = Some s" unfolding run .
  then have "?S = s" by (simp only: option.inject)
  then have "recvd ?S = recvd s" by (rule arg_cong)
  then have "last_failure (map snd (recvd ?S)) = Some ''zero''" using l by (simp only:)
  then have a: "last_failure [Some ''one'', Some ''zero''] = Some ''zero''" by simp
  have b: "scan 8 [Main, Main] 0 ?fn () = Returns (None, ())"
    using scan_result [of 0 8 ?fn "()" ?out] by simp
  have c: "scan 8 [Main, Main] 9 ?fn () = Panics MakeChanSize"
    using scan_result [of 9 8 ?fn "()" ?out] by simp
  have d: "scan 8 [] 2 ?fn () = Unfinished" by (simp add: scan_def scan_init_def)
  show ?thesis using pure ret run a b c d by simp
qed

text \<open>
  C4.  In every state the executor can reach, the operation has been called at most once
  per index and only for indices below the count, and the memory is what those calls,
  in the order they were made, leave.  Whenever the executor returns, under any
  schedule, the operation has been called exactly once for every index below the count,
  no goroutine is still before its call or before its send, all outcomes have been
  received, and the memory it leaves is what all those calls leave.  Nothing here
  depends on an outcome, so a failure of an early call stops nothing.  For every count
  that \<^verbatim>\<open>make\<close> accepts the executor can return.
\<close>

theorem scan_runs_all:
  "(0 \<le> n \<and> n \<le> lim \<longrightarrow> (\<exists>sch r. scan lim sch n fn \<sigma> = Returns r)) \<and>
   (\<forall>sch s. scan_exec (nat n) fn sch (scan_init \<sigma>) = Some s \<longrightarrow>
      distinct (calls s) \<and> set (calls s) \<subseteq> {0..<nat n} \<and>
      store s = effects fn (calls s) \<sigma> \<and>
      (pc s = Ret \<longrightarrow>
         mset (calls s) = mset [0..<nat n] \<and> ready s = [] \<and> sending s = [] \<and> chan s = [] \<and>
         length (recvd s) = nat n)) \<and>
   (\<forall>sch r. scan lim sch n fn \<sigma> = Returns r \<longrightarrow>
      (\<exists>s. scan_exec (nat n) fn sch (scan_init \<sigma>) = Some s \<and> pc s = Ret \<and>
           r = (err s, store s) \<and>
           mset (calls s) = mset [0..<nat n] \<and> distinct (calls s) \<and>
           snd r = effects fn (calls s) \<sigma> \<and>
           mset (recvd s) = mset (outcomes fn (calls s) \<sigma>) \<and>
           ready s = [] \<and> sending s = [] \<and> chan s = [] \<and> length (recvd s) = nat n))"
proof (intro conjI allI impI)
  assume a: "0 \<le> n \<and> n \<le> lim"
  have "\<exists>sch e \<sigma>'. scan lim sch n fn \<sigma> = Returns (e, \<sigma>')"
    by (rule scan_can_return [OF conjunct1 [OF a] conjunct2 [OF a]])
  then show "\<exists>sch r. scan lim sch n fn \<sigma> = Returns r" by blast
next
  fix sch s
  assume run: "scan_exec (nat n) fn sch (scan_init \<sigma>) = Some s"
  have inv: "scan_inv (nat n) s" using scan_exec_inv [OF scan_inv_init run] .
  show "distinct (calls s)" using scan_inv_calls(1) [OF inv] .
  show "set (calls s) \<subseteq> {0..<nat n}" using scan_inv_calls(2) [OF inv] .
  show "store s = effects fn (calls s) \<sigma>"
    using scan_exec_effects [OF scan_init_effects run] by (rule conjunct1)
  assume ret: "pc s = Ret"
  show "mset (calls s) = mset [0..<nat n]" using scan_inv_Ret(5) [OF inv ret] .
  show "ready s = []" using scan_inv_Ret(1) [OF inv ret] .
  show "sending s = []" using scan_inv_Ret(2) [OF inv ret] .
  show "chan s = []" using scan_inv_Ret(3) [OF inv ret] .
  show "length (recvd s) = nat n" using scan_invD(4) [OF inv] ret by simp
next
  fix sch r
  assume "scan lim sch n fn \<sigma> = Returns r"
  then obtain s where run: "scan_exec (nat n) fn sch (scan_init \<sigma>) = Some s"
    and ret: "pc s = Ret" and r: "r = (err s, store s)"
    unfolding scan_Returns_iff by auto
  have inv: "scan_inv (nat n) s" using scan_exec_inv [OF scan_inv_init run] .
  have ef: "store s = effects fn (calls s) \<sigma> \<and>
            mset (sending s @ chan s @ recvd s) = mset (outcomes fn (calls s) \<sigma>)"
    by (rule scan_exec_effects [OF scan_init_effects run])
  show "\<exists>s. scan_exec (nat n) fn sch (scan_init \<sigma>) = Some s \<and> pc s = Ret \<and>
           r = (err s, store s) \<and>
           mset (calls s) = mset [0..<nat n] \<and> distinct (calls s) \<and>
           snd r = effects fn (calls s) \<sigma> \<and>
           mset (recvd s) = mset (outcomes fn (calls s) \<sigma>) \<and>
           ready s = [] \<and> sending s = [] \<and> chan s = [] \<and> length (recvd s) = nat n"
  proof (intro exI [of _ s] conjI)
    show "scan_exec (nat n) fn sch (scan_init \<sigma>) = Some s" using run .
    show "pc s = Ret" using ret .
    show "r = (err s, store s)" using r .
    show "mset (calls s) = mset [0..<nat n]" using scan_inv_Ret(5) [OF inv ret] .
    show "distinct (calls s)" using scan_inv_calls(1) [OF inv] .
    show "snd r = effects fn (calls s) \<sigma>" using ef r by simp
    show "mset (recvd s) = mset (outcomes fn (calls s) \<sigma>)"
      using ef scan_inv_Ret(2,3) [OF inv ret] by simp
    show "ready s = []" using scan_inv_Ret(1) [OF inv ret] .
    show "sending s = []" using scan_inv_Ret(2) [OF inv ret] .
    show "chan s = []" using scan_inv_Ret(3) [OF inv ret] .
    show "length (recvd s) = nat n" using scan_invD(4) [OF inv] ret by simp
  qed
qed

text \<open>
  An operation that counts its calls in the memory and fails for index 0: after the
  return the counter is 2, although the first call that ran has failed.
\<close>

theorem scan_runs_all_witness:
  "(0 :: int) \<le> 2 \<and> (2 :: int) \<le> 8 \<and>
   scan 8 [Main, Go 0, Go 0, Main, Main, Main, Go 1, Go 1, Main, Main] 2
     (\<lambda>k c. (if k = 0 then Some ''early'' else None, Suc c)) 0 = Returns (Some ''early'', 2) \<and>
   scan_exec (nat 2) (\<lambda>k c. (if k = 0 then Some ''early'' else None, Suc c))
     [Main, Go 0, Go 0, Main, Main, Main, Go 1, Go 1, Main, Main] (scan_init 0) =
     Some \<lparr>pc = Ret, ready = [], sending = [], chan = [], err = Some ''early'', store = 2,
           calls = [0, 1], recvd = [(0, Some ''early''), (1, None)]\<rparr> \<and>
   effects (\<lambda>k c. (if k = 0 then Some ''early'' else None, Suc c)) [0, 1] (0 :: nat) = 2 \<and>
   mset [0, 1 :: nat] = mset [0..<nat 2]"
proof -
  let ?fn = "\<lambda>(k :: nat) (c :: nat). (if k = 0 then Some ''early'' else None, Suc c)"
  let ?sch = "[Main, Go 0, Go 0, Main, Main, Main, Go 1, Go 1, Main, Main]"
  let ?S = "\<lparr>pc = Ret, ready = [], sending = [], chan = [], err = Some ''early'',
            store = 2 :: nat, calls = [0, 1], recvd = [(0 :: nat, Some ''early''), (1, None)]\<rparr>"
  have run: "scan_exec (nat 2) ?fn ?sch (scan_init 0) = Some ?S"
    by (simp add: scan_init_def)
  have ret: "scan 8 ?sch 2 ?fn 0 = Returns (Some ''early'', 2)"
    using run by (simp add: scan_def)
  note R = scan_runs_all [of 2 8 ?fn 0]
  from R [THEN conjunct2, THEN conjunct2, rule_format, OF ret]
  obtain s where s: "scan_exec (nat 2) ?fn ?sch (scan_init 0) = Some s"
    and c: "mset (calls s) = mset [0..<nat 2]"
    and e: "snd (Some ''early'', 2 :: nat) = effects ?fn (calls s) 0"
    by blast
  from s have "Some ?S = Some s" unfolding run .
  then have "?S = s" by (simp only: option.inject)
  then have "calls ?S = calls s" by (rule arg_cong)
  then have cs: "calls s = [0, 1]" by simp
  have m: "mset [0, 1 :: nat] = mset [0..<nat 2]" using c unfolding cs .
  have "effects ?fn [0, 1] 0 = snd (Some ''early'', 2 :: nat)" using e unfolding cs by (rule sym)
  then have f: "effects ?fn [0, 1] (0 :: nat) = 2" by (simp only: snd_conv)
  have h: "(0 :: int) \<le> 2" "(2 :: int) \<le> 8" by simp_all
  from R h have "\<exists>sch r. scan 8 sch 2 ?fn 0 = Returns r" by blast
  show ?thesis using h ret run f m by (simp only: simp_thms)
qed

section \<open>Properties of opening a handle\<close>

lemma strings_Split_nonempty: "strings_Split s sep \<noteq> []"
  by (induction s) (auto split: list.splits)

lemma length_strings_Split: "length (strings_Split s sep) = count_list s sep + 1"
proof (induction s)
  case Nil
  show ?case by simp
next
  case (Cons c cs)
  then show ?case using strings_Split_nonempty [of cs sep]
    by (auto split: list.splits)
qed

lemma strings_Split_ABC: "strings_Split ''A;B;C'' CHR '';'' = [''A'', ''B'', ''C'']"
  by simp

lemma strings_Split_empty: "strings_Split [] sep = [[]]"
  by simp

lemma map_upt_update:
  "k < n \<Longrightarrow> (map f [0..<n])[k := c] = map (f(k := c)) [0..<n]"
  by (rule nth_equalityI) (auto simp add: nth_list_update)

lemma Open_fn_outcome:
  "fst (Open_fn connect driver dsns p k v) = snd (connect driver (dsns ! k))"
  by (simp add: Open_fn_def Let_def case_prod_beta)

text \<open>The memory while \<open>Open\<close> fans out, after the calls \<open>cs\<close> of the operation.\<close>

lemma Open_fn_store:
  assumes "heap v = hp @ [\<lparr>conns = map (\<lambda>i. if i \<in> set cs then fst (connect driver (dsns ! i)) else None)
                                     [0..<n], count = 0\<rparr>]"
    and "trace v = tr @ map (\<lambda>i. ConnectContext driver (dsns ! i)) cs"
    and "k < n"
  shows "heap (snd (Open_fn connect driver dsns (length hp) k v)) =
           hp @ [\<lparr>conns = map (\<lambda>i. if i \<in> set (cs @ [k]) then fst (connect driver (dsns ! i)) else None)
                            [0..<n], count = 0\<rparr>]"
    and "trace (snd (Open_fn connect driver dsns (length hp) k v)) =
           tr @ map (\<lambda>i. ConnectContext driver (dsns ! i)) (cs @ [k])"
proof -
  let ?f = "\<lambda>i. if i \<in> set cs then fst (connect driver (dsns ! i)) else None"
  have u: "?f(k := fst (connect driver (dsns ! k))) =
           (\<lambda>i. if i \<in> set (cs @ [k]) then fst (connect driver (dsns ! i)) else None)"
    by auto
  show "heap (snd (Open_fn connect driver dsns (length hp) k v)) =
           hp @ [\<lparr>conns = map (\<lambda>i. if i \<in> set (cs @ [k]) then fst (connect driver (dsns ! i)) else None)
                            [0..<n], count = 0\<rparr>]"
    using assms(1) map_upt_update [OF assms(3), of ?f "fst (connect driver (dsns ! k))"]
    unfolding u by (simp add: Open_fn_def Let_def case_prod_beta invoke_def)
  show "trace (snd (Open_fn connect driver dsns (length hp) k v)) =
           tr @ map (\<lambda>i. ConnectContext driver (dsns ! i)) (cs @ [k])"
    using assms(2) by (simp add: Open_fn_def Let_def case_prod_beta invoke_def)
qed

lemma Open_scan_exec:
  fixes connect :: "string \<Rightarrow> string \<Rightarrow> 'c option \<times> 'e option"
    and w :: "('c, 't, 'a) world"
    and s :: "('e, ('c, 't, 'a) world) scan_state"
  assumes run: "scan_exec (length dsns) (Open_fn connect driver dsns (length (heap w))) sch
            (scan_init (w\<lparr>heap := heap w @ [\<lparr>conns = replicate (length dsns) None, count = 0\<rparr>]\<rparr>))
          = Some s"
    and ret: "pc s = Ret"
  shows "heap (store s) = heap w @ [\<lparr>conns = map (\<lambda>d. fst (connect driver d)) dsns, count = 0\<rparr>]"
    and "trace (store s) = trace w @ map (\<lambda>i. ConnectContext driver (dsns ! i)) (calls s)"
    and "mset (calls s) = mset [0..<length dsns]"
    and "err s = None \<longleftrightarrow> (\<forall>d \<in> set dsns. snd (connect driver d) = None)"
    and "err s \<noteq> None \<Longrightarrow> err s \<in> (\<lambda>d. snd (connect driver d)) ` set dsns"
proof -
  let ?n = "length dsns"
  let ?fn = "Open_fn connect driver dsns (length (heap w))"
  let ?w1 = "w\<lparr>heap := heap w @ [\<lparr>conns = replicate ?n None, count = 0\<rparr>]\<rparr>"
  let ?out = "\<lambda>k. snd (connect driver (dsns ! k))"
  define P where "P cs v \<longleftrightarrow>
      heap v = heap w @ [\<lparr>conns = map (\<lambda>i. if i \<in> set cs then fst (connect driver (dsns ! i)) else None)
                                     [0..<?n], count = 0\<rparr>] \<and>
      trace v = trace w @ map (\<lambda>i. ConnectContext driver (dsns ! i)) cs"
    for cs and v :: "('c, 't, 'a) world"
  have inv0: "scan_inv ?n (scan_init ?w1 :: ('e, ('c, 't, 'a) world) scan_state)"
    by (rule scan_inv_init)
  have inv: "scan_inv ?n s" using scan_exec_inv [OF inv0 run] .
  have P0: "P (calls (scan_init ?w1 :: ('e, ('c, 't, 'a) world) scan_state))
              (store (scan_init ?w1 :: ('e, ('c, 't, 'a) world) scan_state))"
    by (simp add: P_def scan_init_def map_replicate_const)
  have step: "P (cs @ [k]) (snd (?fn k v))" if "P cs v" "k < ?n" "k \<notin> set cs" for cs v k
    using that(1) Open_fn_store [of v "heap w" cs connect driver dsns ?n "trace w" k] that(2)
    unfolding P_def by blast
  have P: "P (calls s) (store s)"
    using scan_exec_store [of P ?n ?fn, OF step inv0 P0 run] .
  show c: "mset (calls s) = mset [0..<?n]" using scan_inv_Ret(5) [OF inv ret] .
  have "set (calls s) = set [0..<?n]" using c by (rule mset_eq_setD)
  then have "map (\<lambda>i. if i \<in> set (calls s) then fst (connect driver (dsns ! i)) else None) [0..<?n]
           = map (\<lambda>i. fst (connect driver (dsns ! i))) [0..<?n]"
    by simp
  also have "\<dots> = map (\<lambda>d. fst (connect driver d)) (map (\<lambda>i. dsns ! i) [0..<?n])"
    by (simp add: comp_def)
  also have "\<dots> = map (\<lambda>d. fst (connect driver d)) dsns" by (simp add: map_nth)
  finally show "heap (store s) = heap w @ [\<lparr>conns = map (\<lambda>d. fst (connect driver d)) dsns, count = 0\<rparr>]"
    using P unfolding P_def by simp
  show "trace (store s) = trace w @ map (\<lambda>i. ConnectContext driver (dsns ! i)) (calls s)"
    using P unfolding P_def by simp
  have pure: "\<forall>k v. fst (?fn k v) = ?out k" by (simp add: Open_fn_outcome)
  have o: "\<forall>x \<in> set (sending s @ chan s @ recvd s). snd x = ?out (fst x)"
    by (rule scan_exec_outcomes [OF pure _ run]) (simp add: scan_init_def)
  have l: "err s = last_failure (map snd (recvd s))" using scan_invD(5) [OF inv] .
  have "set (map fst (recvd s)) = set [0..<?n]"
    using scan_inv_Ret(4) [OF inv ret] by (rule mset_eq_setD)
  then have f: "fst ` set (recvd s) = {0..<?n}" by simp
  have sn: "snd ` set (recvd s) = (\<lambda>d. snd (connect driver d)) ` set dsns"
  proof -
    have "snd ` set (recvd s) = ?out ` fst ` set (recvd s)"
      using o by (force simp add: image_iff)
    also have "\<dots> = ?out ` {0..<?n}" using f by simp
    also have "\<dots> = (\<lambda>d. snd (connect driver d)) ` ((!) dsns ` {0..<?n})"
      by (simp add: image_image)
    also have "(!) dsns ` {0..<?n} = set dsns"
      using nth_image [of ?n dsns] by simp
    finally show ?thesis .
  qed
  show "err s = None \<longleftrightarrow> (\<forall>d \<in> set dsns. snd (connect driver d) = None)"
  proof -
    have "err s = None \<longleftrightarrow> (\<forall>r \<in> snd ` set (recvd s). r = None)"
      unfolding l by (simp add: last_failure_None_iff)
    then show ?thesis unfolding sn by simp
  qed
  show "err s \<in> (\<lambda>d. snd (connect driver d)) ` set dsns" if "err s \<noteq> None"
    using that last_failure_mem [of "map snd (recvd s)"] sn unfolding l by simp
qed

lemma Open_ReturnsD:
  fixes connect :: "string \<Rightarrow> string \<Rightarrow> 'c option \<times> 'e option"
    and w w' :: "('c, 't, 'a) world"
  assumes "Open sch connect driver source w = Returns (r, w')"
  shows "\<exists>s. scan_exec (length (strings_Split source CHR '';''))
               (Open_fn connect driver (strings_Split source CHR '';'') (length (heap w))) sch
               (scan_init (w\<lparr>heap := heap w @
                  [\<lparr>conns = replicate (length (strings_Split source CHR '';'')) None, count = 0\<rparr>]\<rparr>))
             = Some s \<and>
           pc s = Ret \<and> w' = store s \<and>
           r = (if err s \<noteq> None then (None, err s) else (Some (length (heap w)), None))"
proof -
  let ?dsns = "strings_Split source CHR '';''"
  let ?w1 = "w\<lparr>heap := heap w @ [\<lparr>conns = replicate (length ?dsns) None, count = 0\<rparr>]\<rparr>"
  let ?sc = "scan_len sch (length ?dsns) (Open_fn connect driver ?dsns (length (heap w))) ?w1"
  have o: "Open sch connect driver source w =
      (case ?sc of
         Panics f \<Rightarrow> Panics f
       | Unfinished \<Rightarrow> Unfinished
       | Returns (e, w2) \<Rightarrow>
           if e \<noteq> None then Returns ((None, e), w2)
           else Returns ((Some (length (heap w)), None), w2))"
    by (simp add: Open_def Let_def)
  obtain e w2 where sc: "?sc = Returns (e, w2)"
    and r: "(r, w') = (if e \<noteq> None then ((None, e), w2) else ((Some (length (heap w)), None), w2))"
    using assms unfolding o by (cases ?sc) (auto split: if_splits)
  obtain s where "scan_exec (length ?dsns) (Open_fn connect driver ?dsns (length (heap w))) sch
                    (scan_init ?w1) = Some s" "pc s = Ret" "(e, w2) = (err s, store s)"
    using sc unfolding scan_len_Returns_iff by auto
  then show ?thesis using r by (auto split: if_splits)
qed

lemma Open_can_return:
  fixes connect :: "string \<Rightarrow> string \<Rightarrow> 'c option \<times> 'e option"
    and w :: "('c, 't, 'a) world"
  shows "\<exists>sch r w'. Open sch connect driver source w = Returns (r, w')"
proof -
  let ?dsns = "strings_Split source CHR '';''"
  let ?w1 = "w\<lparr>heap := heap w @ [\<lparr>conns = replicate (length ?dsns) None, count = 0\<rparr>]\<rparr>"
  have "\<exists>sch e w2. scan_len sch (length ?dsns)
          (Open_fn connect driver ?dsns (length (heap w))) ?w1 = Returns (e, w2)"
    by (rule scan_len_can_return)
  then obtain sch e w2 where "scan_len sch (length ?dsns)
          (Open_fn connect driver ?dsns (length (heap w))) ?w1 = Returns (e, w2)"
    by blast
  then have "\<exists>r w'. Open sch connect driver source w = Returns (r, w')"
    by (simp add: Open_def Let_def)
  then show ?thesis by blast
qed

lemma Open_no_panic: "Open sch connect driver source w \<noteq> Panics f"
  by (auto simp add: Open_def Let_def scan_len_no_panic split: outcome.splits if_splits)

lemma Open_Returns:
  fixes connect :: "string \<Rightarrow> string \<Rightarrow> 'c option \<times> 'e option"
    and w w' :: "('c, 't, 'a) world"
  assumes "Open sch connect driver source w = Returns (r, w')"
  shows "heap w' = heap w @
           [\<lparr>conns = map (\<lambda>d. fst (connect driver d)) (strings_Split source CHR '';''), count = 0\<rparr>]"
    and "\<exists>ds. mset ds = mset (strings_Split source CHR '';'') \<and>
              trace w' = trace w @ map (ConnectContext driver) ds"
    and "(\<forall>d \<in> set (strings_Split source CHR '';''). snd (connect driver d) = None) \<Longrightarrow>
           r = (Some (length (heap w)), None)"
    and "\<not> (\<forall>d \<in> set (strings_Split source CHR '';''). snd (connect driver d) = None) \<Longrightarrow>
           fst r = None \<and> snd r \<noteq> None \<and>
           snd r \<in> (\<lambda>d. snd (connect driver d)) ` set (strings_Split source CHR '';'')"
proof -
  let ?dsns = "strings_Split source CHR '';''"
  obtain s where run: "scan_exec (length ?dsns) (Open_fn connect driver ?dsns (length (heap w))) sch
               (scan_init (w\<lparr>heap := heap w @
                  [\<lparr>conns = replicate (length ?dsns) None, count = 0\<rparr>]\<rparr>)) = Some s"
    and ret: "pc s = Ret" and w': "w' = store s"
    and r: "r = (if err s \<noteq> None then (None, err s) else (Some (length (heap w)), None))"
    using Open_ReturnsD [OF assms] by blast
  note E = Open_scan_exec [OF run ret]
  show "heap w' = heap w @ [\<lparr>conns = map (\<lambda>d. fst (connect driver d)) ?dsns, count = 0\<rparr>]"
    using E(1) w' by simp
  show "\<exists>ds. mset ds = mset ?dsns \<and> trace w' = trace w @ map (ConnectContext driver) ds"
  proof (intro exI conjI)
    have "mset (map ((!) ?dsns) (calls s)) = image_mset ((!) ?dsns) (mset [0..<length ?dsns])"
      using E(3) by (metis mset_map)
    also have "\<dots> = mset (map ((!) ?dsns) [0..<length ?dsns])" by (simp del: mset_upt)
    also have "\<dots> = mset ?dsns" by (simp only: map_nth)
    finally show "mset (map ((!) ?dsns) (calls s)) = mset ?dsns" .
    show "trace w' = trace w @ map (ConnectContext driver) (map ((!) ?dsns) (calls s))"
      using E(2) w' by (simp add: comp_def)
  qed
  show "r = (Some (length (heap w)), None)"
    if "\<forall>d \<in> set ?dsns. snd (connect driver d) = None"
    using that E(4) r by simp
  show "fst r = None \<and> snd r \<noteq> None \<and> snd r \<in> (\<lambda>d. snd (connect driver d)) ` set ?dsns"
    if "\<not> (\<forall>d \<in> set ?dsns. snd (connect driver d) = None)"
  proof -
    have "err s \<noteq> None" using that E(4) by blast
    then show ?thesis using E(5) r by simp
  qed
qed

lemma index_first: "xs \<noteq> [] \<Longrightarrow> index xs 0 = Inr (hd xs)"
  by (cases xs) (simp_all add: index_def word_sle_eq)

lemma DB_Master_first:
  "p < length (heap w) \<Longrightarrow> conns (heap w ! p) \<noteq> [] \<Longrightarrow>
     DB_Master p w = Inr (hd (conns (heap w ! p)))"
  by (simp add: DB_Master_def index_first)

lemma len_single: "len [x] = 1"
  by (simp add: len_def)

lemma DB_Slave_single:
  "p < length (heap w) \<Longrightarrow> conns (heap w ! p) = [c] \<Longrightarrow> DB_Slave p w = Inr (c, w)"
  by (simp add: DB_Slave_def len_single slave_few index_first)

text \<open>
  C5.  \<open>Open\<close> splits the descriptor at the semicolons and connects to each entry.  When
  every connection succeeds, \<open>Open\<close> can return, and whenever it returns, under any
  schedule, it returns a new handle whose connections are those of the entries, in the
  order of the entries: the master is the connection of the first entry and the others
  follow.  For \<open>"A;B;C"\<close> the master is the connection of \<open>"A"\<close> and the two slaves are
  those of \<open>"B"\<close> and \<open>"C"\<close>, in that order.
\<close>

theorem Open_targets:
  fixes connect :: "string \<Rightarrow> string \<Rightarrow> 'c option \<times> 'e option"
    and w :: "('c, 't, 'a) world"
  assumes "\<forall>d \<in> set (strings_Split source CHR '';''). snd (connect driver d) = None"
  shows "(\<exists>sch r w'. Open sch connect driver source w = Returns (r, w')) \<and>
    (\<forall>sch r w'. Open sch connect driver source w = Returns (r, w') \<longrightarrow>
       r = (Some (length (heap w)), None) \<and>
       heap w' = heap w @
         [\<lparr>conns = map (\<lambda>d. fst (connect driver d)) (strings_Split source CHR '';''),
           count = 0\<rparr>] \<and>
       DB_Master (length (heap w)) w' =
         Inr (fst (connect driver (hd (strings_Split source CHR '';'')))) \<and>
       (source = ''A;B;C'' \<longrightarrow>
          conns (heap w' ! length (heap w)) =
            [fst (connect driver ''A''), fst (connect driver ''B''), fst (connect driver ''C'')]))"
proof (intro conjI allI impI)
  show "\<exists>sch r w'. Open sch connect driver source w = Returns (r, w')"
    by (rule Open_can_return)
next
  fix sch r and w' :: "('c, 't, 'a) world"
  assume o: "Open sch connect driver source w = Returns (r, w')"
  let ?dsns = "strings_Split source CHR '';''"
  show "r = (Some (length (heap w)), None)" using Open_Returns(3) [OF o] assms by blast
  show h: "heap w' = heap w @ [\<lparr>conns = map (\<lambda>d. fst (connect driver d)) ?dsns, count = 0\<rparr>]"
    using Open_Returns(1) [OF o] .
  have ne: "?dsns \<noteq> []" by (rule strings_Split_nonempty)
  have "DB_Master (length (heap w)) w' = Inr (hd (conns (heap w' ! length (heap w))))"
    by (rule DB_Master_first) (simp_all add: h ne)
  then show "DB_Master (length (heap w)) w' = Inr (fst (connect driver (hd ?dsns)))"
    using ne by (simp add: h hd_map)
  show "conns (heap w' ! length (heap w)) =
            [fst (connect driver ''A''), fst (connect driver ''B''), fst (connect driver ''C'')]"
    if "source = ''A;B;C''"
    using that by (simp add: h)
qed

theorem Open_targets_witness:
  "strings_Split ''A;B;C'' CHR '';'' = [''A'', ''B'', ''C''] \<and>
   snd ((\<lambda>drv dsn. (Some dsn, None :: string option)) ''pg'' ''A'') = None \<and>
   snd ((\<lambda>drv dsn. (Some dsn, None :: string option)) ''pg'' ''B'') = None \<and>
   snd ((\<lambda>drv dsn. (Some dsn, None :: string option)) ''pg'' ''C'') = None \<and>
   Open [Main, Go 0, Main, Main, Main, Go 2, Go 1, Go 2, Go 0, Go 1, Main, Main, Main, Main]
        (\<lambda>drv dsn. (Some dsn, None :: string option)) ''pg'' ''A;B;C''
        \<lparr>heap = [], trace = ([] :: (string, unit, unit) call list)\<rparr> =
     Returns ((Some 0, None),
       \<lparr>heap = [\<lparr>conns = [Some ''A'', Some ''B'', Some ''C''], count = 0\<rparr>],
        trace = [ConnectContext ''pg'' ''A'', ConnectContext ''pg'' ''C'', ConnectContext ''pg'' ''B'']\<rparr>) \<and>
   DB_Master 0 \<lparr>heap = [\<lparr>conns = [Some ''A'', Some ''B'', Some ''C''], count = 0\<rparr>],
        trace = [ConnectContext ''pg'' ''A'', ConnectContext ''pg'' ''C'',
                 ConnectContext ''pg'' ''B'' :: (string, unit, unit) call]\<rparr> = Inr (Some ''A'')"
proof -
  let ?connect = "\<lambda>(drv :: string) (dsn :: string). (Some dsn, None :: string option)"
  let ?sch = "[Main, Go 0, Main, Main, Main, Go 2, Go 1, Go 2, Go 0, Go 1, Main, Main, Main, Main]"
  let ?w = "\<lparr>heap = [], trace = ([] :: (string, unit, unit) call list)\<rparr>"
  let ?w' = "\<lparr>heap = [\<lparr>conns = [Some ''A'', Some ''B'', Some ''C''], count = 0\<rparr>],
        trace = [ConnectContext ''pg'' ''A'', ConnectContext ''pg'' ''C'',
                 ConnectContext ''pg'' ''B'' :: (string, unit, unit) call]\<rparr>"
  have h: "\<forall>d \<in> set (strings_Split ''A;B;C'' CHR '';''). snd (?connect ''pg'' d) = None"
    by simp
  have run: "Open ?sch ?connect ''pg'' ''A;B;C'' ?w = Returns ((Some 0, None), ?w')"
    by code_simp
  have "DB_Master (length (heap ?w)) ?w' =
          Inr (fst (?connect ''pg'' (hd (strings_Split ''A;B;C'' CHR '';''))))"
    using Open_targets [OF h, where w = ?w] run by blast
  then have "DB_Master 0 ?w' = Inr (Some ''A'')" by simp
  then show ?thesis using run by simp
qed

text \<open>
  C10.  For every descriptor, \<open>Open\<close> does not panic and can return, and whenever it
  returns it has made one connection attempt per entry of the split descriptor: the
  number of semicolons plus one.  The handle it has allocated has that many
  connections, so never none.  For the empty descriptor there is one attempt, with the
  empty connection descriptor; when it succeeds, the handle has that one connection,
  which is both the master and the connection every read selects.
\<close>

theorem Open_attempts:
  fixes connect :: "string \<Rightarrow> string \<Rightarrow> 'c option \<times> 'e option"
    and w :: "('c, 't, 'a) world"
  shows "(\<exists>sch r w'. Open sch connect driver source w = Returns (r, w')) \<and>
    (\<forall>sch f. Open sch connect driver source w \<noteq> Panics f) \<and>
    (\<forall>sch r w'. Open sch connect driver source w = Returns (r, w') \<longrightarrow>
       (\<exists>ds. mset ds = mset (strings_Split source CHR '';'') \<and>
             trace w' = trace w @ map (ConnectContext driver) ds) \<and>
       length (trace w') = length (trace w) + (count_list source CHR '';'' + 1) \<and>
       length (conns (heap w' ! length (heap w))) = count_list source CHR '';'' + 1 \<and>
       conns (heap w' ! length (heap w)) \<noteq> [] \<and>
       (source = [] \<longrightarrow>
          trace w' = trace w @ [ConnectContext driver []] \<and>
          conns (heap w' ! length (heap w)) = [fst (connect driver [])] \<and>
          (snd (connect driver []) = None \<longrightarrow>
             r = (Some (length (heap w)), None) \<and>
             DB_Master (length (heap w)) w' = Inr (fst (connect driver [])) \<and>
             DB_Slave (length (heap w)) w' = Inr (fst (connect driver []), w'))))"
proof (intro conjI allI impI)
  show "\<exists>sch r w'. Open sch connect driver source w = Returns (r, w')"
    by (rule Open_can_return)
next
  fix sch f
  show "Open sch connect driver source w \<noteq> Panics f" by (rule Open_no_panic)
next
  fix sch r and w' :: "('c, 't, 'a) world"
  assume o: "Open sch connect driver source w = Returns (r, w')"
  let ?dsns = "strings_Split source CHR '';''"
  note h = Open_Returns(1) [OF o]
  obtain ds where ds: "mset ds = mset ?dsns" "trace w' = trace w @ map (ConnectContext driver) ds"
    using Open_Returns(2) [OF o] by blast
  then show "\<exists>ds. mset ds = mset ?dsns \<and> trace w' = trace w @ map (ConnectContext driver) ds"
    by blast
  have "length ds = length ?dsns" using ds(1) by (rule mset_eq_length)
  then show "length (trace w') = length (trace w) + (count_list source CHR '';'' + 1)"
    using ds(2) by (simp add: length_strings_Split)
  show "length (conns (heap w' ! length (heap w))) = count_list source CHR '';'' + 1"
    by (simp add: h length_strings_Split)
  show "conns (heap w' ! length (heap w)) \<noteq> []"
    by (simp add: h strings_Split_nonempty)
  {
    assume e: "source = []"
    then have "mset ds = {#[]#}" using ds(1) by simp
    then have "ds = [[]]" by simp
    then show "trace w' = trace w @ [ConnectContext driver []]" using ds(2) by simp
    show c: "conns (heap w' ! length (heap w)) = [fst (connect driver [])]"
      using e by (simp add: h)
    have l: "length (heap w) < length (heap w')" by (simp add: h)
    assume ok: "snd (connect driver []) = None"
    show "r = (Some (length (heap w)), None)"
      using Open_Returns(3) [OF o] e ok by simp
    show "DB_Master (length (heap w)) w' = Inr (fst (connect driver []))"
      using DB_Master_first [OF l] c by simp
    show "DB_Slave (length (heap w)) w' = Inr (fst (connect driver []), w')"
      using DB_Slave_single [OF l c] .
  }
qed

theorem Open_attempts_witness:
  "Open [Main, Go 0, Go 0, Main, Main, Main]
        (\<lambda>drv dsn. (Some (drv @ '':'' @ dsn), None :: string option)) ''pg'' []
        \<lparr>heap = [], trace = ([] :: (string, unit, unit) call list)\<rparr> =
     Returns ((Some 0, None),
       \<lparr>heap = [\<lparr>conns = [Some ''pg:''], count = 0\<rparr>], trace = [ConnectContext ''pg'' []]\<rparr>) \<and>
   snd ((\<lambda>drv dsn. (Some (drv @ '':'' @ dsn), None :: string option)) ''pg'' []) = None \<and>
   DB_Slave 0 \<lparr>heap = [\<lparr>conns = [Some ''pg:''], count = 0\<rparr>],
                trace = [ConnectContext ''pg'' [] :: (string, unit, unit) call]\<rparr> =
     Inr (Some ''pg:'', \<lparr>heap = [\<lparr>conns = [Some ''pg:''], count = 0\<rparr>],
                          trace = [ConnectContext ''pg'' []]\<rparr>) \<and>
   Open [Main, Main, Go 1, Go 0, Go 0, Main, Go 1, Main, Main, Main]
        (\<lambda>drv dsn. if dsn = ''B'' then (None, Some ''refused'') else (Some dsn, None)) ''pg'' ''A;B''
        \<lparr>heap = [], trace = ([] :: (string, unit, unit) call list)\<rparr> =
     Returns ((None, Some ''refused''),
       \<lparr>heap = [\<lparr>conns = [Some ''A'', None], count = 0\<rparr>],
        trace = [ConnectContext ''pg'' ''B'', ConnectContext ''pg'' ''A'']\<rparr>) \<and>
   length [ConnectContext ''pg'' ''B'', ConnectContext ''pg'' ''A'' :: (string, unit, unit) call] =
     length ([] :: (string, unit, unit) call list) + (count_list ''A;B'' CHR '';'' + 1)"
proof -
  let ?c1 = "\<lambda>(drv :: string) (dsn :: string). (Some (drv @ '':'' @ dsn), None :: string option)"
  let ?c2 = "\<lambda>(drv :: string) (dsn :: string).
               if dsn = ''B'' then (None, Some ''refused'') else (Some dsn, None)"
  let ?w = "\<lparr>heap = [], trace = ([] :: (string, unit, unit) call list)\<rparr>"
  let ?w1 = "\<lparr>heap = [\<lparr>conns = [Some ''pg:''], count = 0\<rparr>],
              trace = [ConnectContext ''pg'' [] :: (string, unit, unit) call]\<rparr>"
  let ?w2 = "\<lparr>heap = [\<lparr>conns = [Some ''A'', None], count = 0\<rparr>],
              trace = [ConnectContext ''pg'' ''B'', ConnectContext ''pg'' ''A''
                         :: (string, unit, unit) call]\<rparr>"
  have r1: "Open [Main, Go 0, Go 0, Main, Main, Main] ?c1 ''pg'' [] ?w = Returns ((Some 0, None), ?w1)"
    by code_simp
  have ok: "snd (?c1 ''pg'' []) = None" by simp
  have r2: "Open [Main, Main, Go 1, Go 0, Go 0, Main, Go 1, Main, Main, Main] ?c2 ''pg'' ''A;B'' ?w =
              Returns ((None, Some ''refused''), ?w2)"
    by code_simp
  have "DB_Slave (length (heap ?w)) ?w1 = Inr (fst (?c1 ''pg'' []), ?w1)"
    using Open_attempts [of ?c1 "''pg''" "[]" ?w] r1 ok by blast
  then have a: "DB_Slave 0 ?w1 = Inr (Some ''pg:'', ?w1)" by simp
  have "length (trace ?w2) = length (trace ?w) + (count_list ''A;B'' CHR '';'' + 1)"
    using Open_attempts [of ?c2 "''pg''" "''A;B''" ?w] r2 by blast
  then show ?thesis using r1 ok a r2 by simp
qed

section \<open>Properties of routing and of prepared-statement groups\<close>

lemma Prepare_fn_outcome:
  "heap (snd \<sigma>) = hp \<Longrightarrow>
     fst (Prepare_fn prepare m p x k \<sigma>) = snd (prepare (conns (hp ! p) ! k) x)"
  by (simp add: Prepare_fn_def Let_def case_prod_beta)

lemma Prepare_fn_store:
  assumes "fst \<sigma> = map (\<lambda>i. if i \<in> set cs then fst (prepare (cns ! i) x) else None) [0..<n]"
    and "heap (snd \<sigma>) = hp" and "conns (hp ! p) = cns"
    and "trace (snd \<sigma>) = tr @ map (\<lambda>i. OnConn (cns ! i) m) cs"
    and "k < n"
  shows "fst (snd (Prepare_fn prepare m p x k \<sigma>)) =
           map (\<lambda>i. if i \<in> set (cs @ [k]) then fst (prepare (cns ! i) x) else None) [0..<n]"
    and "heap (snd (snd (Prepare_fn prepare m p x k \<sigma>))) = hp"
    and "trace (snd (snd (Prepare_fn prepare m p x k \<sigma>))) =
           tr @ map (\<lambda>i. OnConn (cns ! i) m) (cs @ [k])"
proof -
  let ?f = "\<lambda>i. if i \<in> set cs then fst (prepare (cns ! i) x) else None"
  have u: "?f(k := fst (prepare (cns ! k) x)) =
           (\<lambda>i. if i \<in> set (cs @ [k]) then fst (prepare (cns ! i) x) else None)"
    by auto
  show "fst (snd (Prepare_fn prepare m p x k \<sigma>)) =
           map (\<lambda>i. if i \<in> set (cs @ [k]) then fst (prepare (cns ! i) x) else None) [0..<n]"
    using assms(1,2,3) map_upt_update [OF assms(5), of ?f "fst (prepare (cns ! k) x)"]
    unfolding u by (simp add: Prepare_fn_def Let_def case_prod_beta)
  show "heap (snd (snd (Prepare_fn prepare m p x k \<sigma>))) = hp"
    using assms(2) by (simp add: Prepare_fn_def Let_def case_prod_beta invoke_def)
  show "trace (snd (snd (Prepare_fn prepare m p x k \<sigma>))) =
           tr @ map (\<lambda>i. OnConn (cns ! i) m) (cs @ [k])"
    using assms(2,3,4) by (simp add: Prepare_fn_def Let_def case_prod_beta invoke_def)
qed

lemma scan_exec_store_outcomes:
  assumes step: "\<And>cs \<sigma> k. P cs \<sigma> \<Longrightarrow> k < n \<Longrightarrow> k \<notin> set cs \<Longrightarrow>
                   P (cs @ [k]) (snd (fn k \<sigma>)) \<and> fst (fn k \<sigma>) = out k"
  shows "scan_inv n s \<Longrightarrow> P (calls s) (store s) \<Longrightarrow>
    \<forall>x \<in> set (sending s @ chan s @ recvd s). snd x = out (fst x) \<Longrightarrow>
    scan_exec n fn sch s = Some s' \<Longrightarrow>
    P (calls s') (store s') \<and> (\<forall>x \<in> set (sending s' @ chan s' @ recvd s'). snd x = out (fst x))"
proof (induction sch arbitrary: s)
  case Nil
  then show ?case by simp
next
  case (Cons a sch)
  from Cons.prems(4) obtain s1
    where a: "scan_step n fn a s = Some s1" and b: "scan_exec n fn sch s1 = Some s'"
    by (auto split: option.splits)
  have i1: "scan_inv n s1" using Cons.prems(1) a by (rule scan_step_inv)
  have step1: "P (cs @ [k]) (snd (fn k \<sigma>))" if "P cs \<sigma>" "k < n" "k \<notin> set cs" for cs \<sigma> k
    using step [OF that] by (rule conjunct1)
  have p1: "P (calls s1) (store s1)"
    by (rule scan_step_store [where P = P, OF Cons.prems(1) Cons.prems(2) a]) (rule step1)
  have o1: "\<forall>x \<in> set (sending s1 @ chan s1 @ recvd s1). snd x = out (fst x)"
  proof (cases a)
    case Main
    show ?thesis
    proof (cases "pc s")
      case (Spawn i)
      then show ?thesis using Cons.prems(3) a Main by (auto split: if_splits)
    next
      case (Recv i)
      then show ?thesis using Cons.prems(3) a Main by (auto split: if_splits list.splits)
    next
      case Ret
      then show ?thesis using a Main by simp
    qed
  next
    case (Go k)
    show ?thesis
    proof (cases "k \<in> set (ready s)")
      case True
      obtain r \<sigma> where f: "fn k (store s) = (r, \<sigma>)" by (cases "fn k (store s)")
      have kn: "k < n" using scan_inv_calls(4) [OF Cons.prems(1)] True by auto
      have kc: "k \<notin> set (calls s)" using scan_inv_calls(3) [OF Cons.prems(1)] True by auto
      have "fst (fn k (store s)) = out k"
        using step [OF Cons.prems(2) kn kc] by (rule conjunct2)
      then have "r = out k" using f by simp
      moreover have "s1 = s\<lparr>ready := remove1 k (ready s), sending := sending s @ [(k, r)],
                      store := \<sigma>, calls := calls s @ [k]\<rparr>"
        using a Go True f by simp
      ultimately show ?thesis using Cons.prems(3) by auto
    next
      case False
      then obtain r where mo: "map_of (sending s) k = Some r"
        and s1: "s1 = s\<lparr>sending := remove1 (k, r) (sending s), chan := chan s @ [(k, r)]\<rparr>"
        using a Go by (auto split: option.splits if_splits)
      have m: "(k, r) \<in> set (sending s)" using mo by (rule map_of_SomeD)
      then have "snd (k, r) = out (fst (k, r))" using Cons.prems(3) by (metis UnCI set_append)
      then have "r = out k" by simp
      moreover have "set (remove1 (k, r) (sending s)) \<subseteq> set (sending s)"
        by (rule set_remove1_subset)
      ultimately show ?thesis using Cons.prems(3) unfolding s1 by auto
    qed
  qed
  show ?case using Cons.IH [OF i1 p1 o1 b] .
qed

lemma Prepare_scan_exec:
  fixes prepare :: "'c option \<Rightarrow> 'a \<Rightarrow> 't option \<times> 'e option"
    and w :: "('c, 't, 'a) world"
    and s :: "('e, 't option list \<times> ('c, 't, 'a) world) scan_state"
  assumes run: "scan_exec (length (conns (heap w ! p))) (Prepare_fn prepare m p x) sch
            (scan_init (replicate (length (conns (heap w ! p))) None, w)) = Some s"
    and ret: "pc s = Ret"
  shows "fst (store s) = map (\<lambda>c. fst (prepare c x)) (conns (heap w ! p))"
    and "heap (snd (store s)) = heap w"
    and "trace (snd (store s)) = trace w @ map (\<lambda>i. OnConn (conns (heap w ! p) ! i) m) (calls s)"
    and "mset (calls s) = mset [0..<length (conns (heap w ! p))]"
    and "err s = None \<longleftrightarrow> (\<forall>c \<in> set (conns (heap w ! p)). snd (prepare c x) = None)"
    and "err s \<noteq> None \<Longrightarrow> err s \<in> (\<lambda>c. snd (prepare c x)) ` set (conns (heap w ! p))"
proof -
  let ?cns = "conns (heap w ! p)"
  let ?n = "length ?cns"
  let ?fn = "Prepare_fn prepare m p x"
  let ?s0 = "scan_init (replicate ?n None, w) :: ('e, 't option list \<times> ('c, 't, 'a) world) scan_state"
  let ?out = "\<lambda>k. snd (prepare (?cns ! k) x)"
  define P where "P cs \<sigma> \<longleftrightarrow>
      fst \<sigma> = map (\<lambda>i. if i \<in> set cs then fst (prepare (?cns ! i) x) else None) [0..<?n] \<and>
      heap (snd \<sigma>) = heap w \<and>
      trace (snd \<sigma>) = trace w @ map (\<lambda>i. OnConn (?cns ! i) m) cs"
    for cs and \<sigma> :: "'t option list \<times> ('c, 't, 'a) world"
  have inv0: "scan_inv ?n ?s0" by (rule scan_inv_init)
  have inv: "scan_inv ?n s" using scan_exec_inv [OF inv0 run] .
  have P0: "P (calls ?s0) (store ?s0)"
    by (simp add: P_def scan_init_def map_replicate_const)
  have step: "P (cs @ [k]) (snd (?fn k \<sigma>)) \<and> fst (?fn k \<sigma>) = ?out k"
    if "P cs \<sigma>" "k < ?n" "k \<notin> set cs" for cs \<sigma> k
  proof -
    have a: "fst \<sigma> = map (\<lambda>i. if i \<in> set cs then fst (prepare (?cns ! i) x) else None) [0..<?n]"
      and b: "heap (snd \<sigma>) = heap w"
      and c: "trace (snd \<sigma>) = trace w @ map (\<lambda>i. OnConn (?cns ! i) m) cs"
      using that(1) unfolding P_def by simp_all
    note S = Prepare_fn_store [where \<sigma> = \<sigma> and cs = cs and prepare = prepare and cns = ?cns
        and x = x and n = ?n and hp = "heap w" and p = p and tr = "trace w" and m = m and k = k,
        OF a b refl c that(2)]
    have "P (cs @ [k]) (snd (?fn k \<sigma>))" unfolding P_def using S by simp
    moreover have "fst (?fn k \<sigma>) = ?out k" by (rule Prepare_fn_outcome [OF b])
    ultimately show ?thesis by simp
  qed
  have o0: "\<forall>x \<in> set (sending ?s0 @ chan ?s0 @ recvd ?s0). snd x = ?out (fst x)"
    by (simp add: scan_init_def)
  have Po: "P (calls s) (store s) \<and>
            (\<forall>x \<in> set (sending s @ chan s @ recvd s). snd x = ?out (fst x))"
    using scan_exec_store_outcomes [of P ?n ?fn ?out, OF step inv0 P0 o0 run] .
  then have P: "P (calls s) (store s)"
    and o: "\<forall>x \<in> set (sending s @ chan s @ recvd s). snd x = ?out (fst x)"
    by simp_all
  show c: "mset (calls s) = mset [0..<?n]" using scan_inv_Ret(5) [OF inv ret] .
  have "set (calls s) = set [0..<?n]" using c by (rule mset_eq_setD)
  then have "map (\<lambda>i. if i \<in> set (calls s) then fst (prepare (?cns ! i) x) else None) [0..<?n]
           = map (\<lambda>i. fst (prepare (?cns ! i) x)) [0..<?n]"
    by simp
  also have "\<dots> = map (\<lambda>c. fst (prepare c x)) (map (\<lambda>i. ?cns ! i) [0..<?n])"
    by (simp add: comp_def)
  also have "\<dots> = map (\<lambda>c. fst (prepare c x)) ?cns" by (simp add: map_nth)
  finally show "fst (store s) = map (\<lambda>c. fst (prepare c x)) ?cns"
    using P unfolding P_def by simp
  show "heap (snd (store s)) = heap w" using P unfolding P_def by simp
  show "trace (snd (store s)) = trace w @ map (\<lambda>i. OnConn (?cns ! i) m) (calls s)"
    using P unfolding P_def by simp
  have l: "err s = last_failure (map snd (recvd s))" using scan_invD(5) [OF inv] .
  have "set (map fst (recvd s)) = set [0..<?n]"
    using scan_inv_Ret(4) [OF inv ret] by (rule mset_eq_setD)
  then have f: "fst ` set (recvd s) = {0..<?n}" by simp
  have sn: "snd ` set (recvd s) = (\<lambda>c. snd (prepare c x)) ` set ?cns"
  proof -
    have "snd ` set (recvd s) = ?out ` fst ` set (recvd s)"
      using o by (force simp add: image_iff)
    also have "\<dots> = ?out ` {0..<?n}" using f by simp
    also have "\<dots> = (\<lambda>c. snd (prepare c x)) ` ((!) ?cns ` {0..<?n})"
      by (simp add: image_image)
    also have "(!) ?cns ` {0..<?n} = set ?cns"
      using nth_image [of ?n ?cns] by simp
    finally show ?thesis .
  qed
  show "err s = None \<longleftrightarrow> (\<forall>c \<in> set ?cns. snd (prepare c x) = None)"
  proof -
    have "err s = None \<longleftrightarrow> (\<forall>r \<in> snd ` set (recvd s). r = None)"
      unfolding l by (simp add: last_failure_None_iff)
    then show ?thesis unfolding sn by simp
  qed
  show "err s \<in> (\<lambda>c. snd (prepare c x)) ` set ?cns" if "err s \<noteq> None"
    using that last_failure_mem [of "map snd (recvd s)"] sn unfolding l by simp
qed

lemma Prepare_group_Returns:
  fixes prepare :: "'c option \<Rightarrow> 'a \<Rightarrow> 't option \<times> 'e option"
    and w w' :: "('c, 't, 'a) world"
  assumes "(case scan_len sch (length (conns (heap w ! p))) (Prepare_fn prepare m p x)
                   (replicate (length (conns (heap w ! p))) None, w) of
              Panics f \<Rightarrow> Panics f
            | Unfinished \<Rightarrow> Unfinished
            | Returns (e, (ss, w')) \<Rightarrow>
                if e \<noteq> None then Returns ((None, e), w')
                else Returns ((Some \<lparr>db = p, stmts = ss\<rparr>, None), w')) = Returns (r, w')"
  shows "heap w' = heap w"
    and "\<exists>cs. mset cs = mset (conns (heap w ! p)) \<and>
              trace w' = trace w @ map (\<lambda>c. OnConn c m) cs"
    and "(\<forall>c \<in> set (conns (heap w ! p)). snd (prepare c x) = None) \<Longrightarrow>
           r = (Some \<lparr>db = p, stmts = map (\<lambda>c. fst (prepare c x)) (conns (heap w ! p))\<rparr>, None)"
    and "\<not> (\<forall>c \<in> set (conns (heap w ! p)). snd (prepare c x) = None) \<Longrightarrow>
           fst r = None \<and> snd r \<noteq> None \<and>
           snd r \<in> (\<lambda>c. snd (prepare c x)) ` set (conns (heap w ! p))"
proof -
  let ?cns = "conns (heap w ! p)"
  let ?n = "length ?cns"
  let ?sc = "scan_len sch ?n (Prepare_fn prepare m p x) (replicate ?n None, w)"
  obtain e ss w2 where sc: "?sc = Returns (e, (ss, w2))"
    and r: "(r, w') = (if e \<noteq> None then ((None, e), w2)
                       else ((Some \<lparr>db = p, stmts = ss\<rparr>, None), w2))"
    using assms by (cases ?sc) (auto split: if_splits)
  obtain s where run: "scan_exec ?n (Prepare_fn prepare m p x) sch
                    (scan_init (replicate ?n None, w)) = Some s"
    and ret: "pc s = Ret" and es: "(e, (ss, w2)) = (err s, store s)"
    using sc unfolding scan_len_Returns_iff by auto
  note E = Prepare_scan_exec [OF run ret]
  have e: "e = err s" and st: "store s = (ss, w2)" using es by simp_all
  have w': "w' = snd (store s)" using r st by (simp split: if_splits)
  have ss: "ss = fst (store s)" using st by simp
  show "heap w' = heap w" using E(2) w' by simp
  show "\<exists>cs. mset cs = mset ?cns \<and> trace w' = trace w @ map (\<lambda>c. OnConn c m) cs"
  proof (intro exI conjI)
    have "mset (map ((!) ?cns) (calls s)) = image_mset ((!) ?cns) (mset [0..<?n])"
      using E(4) by (metis mset_map)
    also have "\<dots> = mset (map ((!) ?cns) [0..<?n])" by (simp del: mset_upt)
    also have "\<dots> = mset ?cns" by (simp only: map_nth)
    finally show "mset (map ((!) ?cns) (calls s)) = mset ?cns" .
    show "trace w' = trace w @ map (\<lambda>c. OnConn c m) (map ((!) ?cns) (calls s))"
      using E(3) w' by (simp add: comp_def)
  qed
  show "r = (Some \<lparr>db = p, stmts = map (\<lambda>c. fst (prepare c x)) ?cns\<rparr>, None)"
    if "\<forall>c \<in> set ?cns. snd (prepare c x) = None"
    using that E(5) E(1) r e ss by simp
  show "fst r = None \<and> snd r \<noteq> None \<and> snd r \<in> (\<lambda>c. snd (prepare c x)) ` set ?cns"
    if "\<not> (\<forall>c \<in> set ?cns. snd (prepare c x) = None)"
  proof -
    have "err s \<noteq> None" using that E(5) by blast
    then show ?thesis using E(6) r e by simp
  qed
qed

lemma Prepare_group_can_return:
  fixes prepare :: "'c option \<Rightarrow> 'a \<Rightarrow> 't option \<times> 'e option"
    and w :: "('c, 't, 'a) world"
  shows "\<exists>sch r w'.
          (case scan_len sch (length (conns (heap w ! p))) (Prepare_fn prepare m p x)
                   (replicate (length (conns (heap w ! p))) None, w) of
              Panics f \<Rightarrow> Panics f
            | Unfinished \<Rightarrow> Unfinished
            | Returns (e, (ss, w')) \<Rightarrow>
                if e \<noteq> None then Returns ((None, e), w')
                else Returns ((Some \<lparr>db = p, stmts = ss\<rparr>, None), w')) = Returns (r, w')"
proof -
  let ?n = "length (conns (heap w ! p))"
  have "\<exists>sch e \<sigma>. scan_len sch ?n (Prepare_fn prepare m p x) (replicate ?n None, w) =
          Returns (e, \<sigma>)"
    by (rule scan_len_can_return)
  then obtain sch e ss w2 where
    "scan_len sch ?n (Prepare_fn prepare m p x) (replicate ?n None, w) = Returns (e, (ss, w2))"
    by (metis surj_pair)
  then have "\<exists>r w'.
          (case scan_len sch ?n (Prepare_fn prepare m p x) (replicate ?n None, w) of
              Panics f \<Rightarrow> Panics f
            | Unfinished \<Rightarrow> Unfinished
            | Returns (e, (ss, w')) \<Rightarrow>
                if e \<noteq> None then Returns ((None, e), w')
                else Returns ((Some \<lparr>db = p, stmts = ss\<rparr>, None), w')) = Returns (r, w')"
    by simp
  then show ?thesis by blast
qed

lemma DB_Prepare_unfold:
  "p < length (heap w) \<Longrightarrow>
   DB_Prepare sch prepare p x w =
     (case scan_len sch (length (conns (heap w ! p)))
             (Prepare_fn prepare (PreparexContext x) p x)
             (replicate (length (conns (heap w ! p))) None, w) of
        Panics f \<Rightarrow> Panics f
      | Unfinished \<Rightarrow> Unfinished
      | Returns (e, (ss, w')) \<Rightarrow>
          if e \<noteq> None then Returns ((None, e), w')
          else Returns ((Some \<lparr>db = p, stmts = ss\<rparr>, None), w'))"
  by (simp add: DB_Prepare_def Let_def)

lemma DB_NamedPrepare_unfold:
  "p < length (heap w) \<Longrightarrow>
   DB_NamedPrepare sch prepare p x w =
     (case scan_len sch (length (conns (heap w ! p)))
             (Prepare_fn prepare (PrepareNamedContext x) p x)
             (replicate (length (conns (heap w ! p))) None, w) of
        Panics f \<Rightarrow> Panics f
      | Unfinished \<Rightarrow> Unfinished
      | Returns (e, (ss, w')) \<Rightarrow>
          if e \<noteq> None then Returns ((None, e), w')
          else Returns ((Some \<lparr>db = p, stmts = ss\<rparr>, None), w'))"
  by (simp add: DB_NamedPrepare_def Let_def)

lemma no_Close_in_prepares:
  "OnStmt t Close \<notin> set (map (\<lambda>c. OnConn c m) cs)"
  "OnNamedStmt t Close \<notin> set (map (\<lambda>c. OnConn c m) cs)"
  by auto

lemma sint_len:
  assumes "length xs < 2 ^ 63"
  shows "sint (len xs) = int (length xs)"
proof -
  have "sint (len xs) = signed_take_bit 63 (int (length xs))"
    by (simp add: len_def signed_of_nat)
  also have "\<dots> = int (length xs)"
  proof (rule signed_take_bit_int_eq_self)
    show "- (2 ^ 63) \<le> int (length xs)" by (rule order_trans [of _ 0]) simp_all
    show "int (length xs) < 2 ^ 63" using assms by (simp add: of_nat_less_numeral_power_cancel_iff)
  qed
  finally show ?thesis .
qed

lemma unat_less_of_uint:
  assumes "uint (x :: 64 word) < int n"
  shows "unat x < n"
proof -
  have "int (unat x) = uint x" by simp
  then have "int (unat x) < int n" using assms by (simp only:)
  then show ?thesis by (simp only: of_nat_less_iff)
qed

lemma index_in_range:
  "0 \<le> sint i \<Longrightarrow> unat i < length xs \<Longrightarrow> index xs i = Inr (xs ! unat i)"
  by (simp add: index_def word_sle_eq)

text \<open>The selector on the number of connections of an allocated handle.\<close>

lemma slave_len:
  assumes "p < length (heap w)" "conns (heap w ! p) \<noteq> []" "length (conns (heap w ! p)) < 2 ^ 63"
  shows "\<exists>i w'. slave p (len (conns (heap w ! p))) w = Inr (i, w') \<and>
           0 \<le> sint i \<and> unat i < length (conns (heap w ! p)) \<and>
           (length (conns (heap w ! p)) \<le> 1 \<longrightarrow> i = 0 \<and> w' = w) \<and>
           (1 < length (conns (heap w ! p)) \<longrightarrow>
              i = 1 + (count (heap w ! p) + 1) mod (len (conns (heap w ! p)) - 1) \<and>
              w' = w\<lparr>heap := (heap w)[p := (heap w ! p)\<lparr>count := count (heap w ! p) + 1\<rparr>]\<rparr>)"
proof (cases "1 < length (conns (heap w ! p))")
  case False
  then have "sint (len (conns (heap w ! p))) \<le> 1" using sint_len [OF assms(3)] by simp
  then have "len (conns (heap w ! p)) \<le>s 1" by (simp add: word_sle_eq)
  then have "slave p (len (conns (heap w ! p))) w = Inr (0, w)" by (rule slave_few)
  then show ?thesis using False assms(2) by simp
next
  case True
  let ?n = "len (conns (heap w ! p))"
  let ?c = "count (heap w ! p) + 1"
  let ?i = "1 + ?c mod (?n - 1)"
  have sn: "sint ?n = int (length (conns (heap w ! p)))" using sint_len [OF assms(3)] .
  then have n: "1 <s ?n" using True by (simp add: word_sless_alt)
  note s = slave_many [OF n assms(1)]
  note r = selected_in_range [OF n, of ?c]
  have u: "uint ?i = sint ?i" using uint_selected [OF n, of ?c] sint_selected [OF n, of ?c] by simp
  have "uint ?i < int (length (conns (heap w ! p)))" using u r(2) sn by simp
  then have b: "unat ?i < length (conns (heap w ! p))" by (rule unat_less_of_uint)
  have a: "0 \<le> sint ?i" using r(1) by linarith
  have f: "\<not> length (conns (heap w ! p)) \<le> 1" using True by simp
  let ?w' = "w\<lparr>heap := (heap w)[p := (heap w ! p)\<lparr>count := count (heap w ! p) + 1\<rparr>]\<rparr>"
  have "slave p ?n w = Inr (?i, ?w') \<and> 0 \<le> sint ?i \<and> unat ?i < length (conns (heap w ! p)) \<and>
           (length (conns (heap w ! p)) \<le> 1 \<longrightarrow> ?i = 0 \<and> ?w' = w) \<and>
           (1 < length (conns (heap w ! p)) \<longrightarrow> ?i = ?i \<and> ?w' = ?w')"
    using s a b f by (intro conjI impI) (simp_all only: refl not_True_eq_False)
  then show ?thesis by (intro exI)
qed

lemma DB_Slave_selected:
  assumes "p < length (heap w)"
    and "slave p (len (conns (heap w ! p))) w = Inr (i, w')"
    and "0 \<le> sint i" "unat i < length (conns (heap w ! p))"
  shows "DB_Slave p w = Inr (conns (heap w ! p) ! unat i, w')"
  using assms by (simp add: DB_Slave_def index_in_range)

lemma indexForSalve_selected:
  assumes "db s < length (heap w)"
  shows "stmt_indexForSalve s w = slave (db s) (len (conns (heap w ! db s))) w"
    and "namedStmt_indexForSalve s w = slave (db s) (len (conns (heap w ! db s))) w"
  using assms by (simp_all add: stmt_indexForSalve_def namedStmt_indexForSalve_def)

lemma DB_Master_zero:
  "p < length (heap w) \<Longrightarrow> conns (heap w ! p) \<noteq> [] \<Longrightarrow>
     DB_Master p w = Inr (conns (heap w ! p) ! 0)"
  by (simp add: DB_Master_first hd_conv_nth)

lemma index_zero: "xs \<noteq> [] \<Longrightarrow> index xs 0 = Inr (xs ! 0)"
  by (simp add: index_first hd_conv_nth)

lemma heap_invoke: "heap (invoke c w) = heap w"
  by (simp add: invoke_def)

lemma Prepare_group_Some:
  fixes prepare :: "'c option \<Rightarrow> 'a \<Rightarrow> 't option \<times> 'e option"
    and w w' :: "('c, 't, 'a) world"
  assumes "(case scan_len sch (length (conns (heap w ! p))) (Prepare_fn prepare m p x)
                   (replicate (length (conns (heap w ! p))) None, w) of
              Panics f \<Rightarrow> Panics f
            | Unfinished \<Rightarrow> Unfinished
            | Returns (e, (ss, w')) \<Rightarrow>
                if e \<noteq> None then Returns ((None, e), w')
                else Returns ((Some \<lparr>db = p, stmts = ss\<rparr>, None), w')) =
           Returns ((Some g, None), w')"
  shows "g = \<lparr>db = p, stmts = map (\<lambda>c. fst (prepare c x)) (conns (heap w ! p))\<rparr>"
    and "heap w' = heap w"
proof -
  note R = Prepare_group_Returns [OF assms]
  show "heap w' = heap w" using R(1) .
  have "\<forall>c \<in> set (conns (heap w ! p)). snd (prepare c x) = None"
  proof (rule ccontr)
    assume "\<not> (\<forall>c \<in> set (conns (heap w ! p)). snd (prepare c x) = None)"
    then have "fst (Some g, None :: 'e option) = None" using R(4) by blast
    then show False by simp
  qed
  then have "(Some g, None :: 'e option) =
      (Some \<lparr>db = p, stmts = map (\<lambda>c. fst (prepare c x)) (conns (heap w ! p))\<rparr>, None)"
    using R(3) by simp
  then show "g = \<lparr>db = p, stmts = map (\<lambda>c. fst (prepare c x)) (conns (heap w ! p))\<rparr>"
    by simp
qed

text \<open>
  C6.  On an allocated handle with at least one connection, \<open>Exec\<close>, \<open>NamedExec\<close>, \<open>Begin\<close>
  and \<open>BeginTx\<close> call the connection at index 0, whatever value \<open>k\<close> the selection
  counter has, and leave the counter as it is.  \<open>Exec\<close> of a prepared-statement group
  calls the statement at index 0, and in a group that \<open>Prepare\<close> or \<open>NamedPrepare\<close> has
  returned, that is the statement prepared on the connection at index 0.
\<close>

theorem writes_to_master:
  fixes prepare :: "'c option \<Rightarrow> 'a \<Rightarrow> 't option \<times> 'e option"
    and w :: "('c, 't, 'a) world"
    and s :: "'t stmt"
  assumes "p < length (heap w)" "conns (heap w ! p) \<noteq> []"
  shows "(\<forall>k. DB_Exec p x (w\<lparr>heap := (heap w)[p := (heap w ! p)\<lparr>count := k\<rparr>]\<rparr>) =
            Inr (invoke (OnConn (conns (heap w ! p) ! 0) (MustExecContext x))
                   (w\<lparr>heap := (heap w)[p := (heap w ! p)\<lparr>count := k\<rparr>]\<rparr>))) \<and>
    (\<forall>k. DB_NamedExec p x (w\<lparr>heap := (heap w)[p := (heap w ! p)\<lparr>count := k\<rparr>]\<rparr>) =
            Inr (invoke (OnConn (conns (heap w ! p) ! 0) (NamedExecContext x))
                   (w\<lparr>heap := (heap w)[p := (heap w ! p)\<lparr>count := k\<rparr>]\<rparr>))) \<and>
    (\<forall>k. DB_Begin p (w\<lparr>heap := (heap w)[p := (heap w ! p)\<lparr>count := k\<rparr>]\<rparr>) =
            Inr (invoke (OnConn (conns (heap w ! p) ! 0) Beginx)
                   (w\<lparr>heap := (heap w)[p := (heap w ! p)\<lparr>count := k\<rparr>]\<rparr>))) \<and>
    (\<forall>k. DB_BeginTx p x (w\<lparr>heap := (heap w)[p := (heap w ! p)\<lparr>count := k\<rparr>]\<rparr>) =
            Inr (invoke (OnConn (conns (heap w ! p) ! 0) (BeginTxx x))
                   (w\<lparr>heap := (heap w)[p := (heap w ! p)\<lparr>count := k\<rparr>]\<rparr>))) \<and>
    (\<forall>c. heap (invoke c w) = heap w) \<and>
    (stmts s \<noteq> [] \<longrightarrow>
       stmt_Exec s x w = Inr (invoke (OnStmt (stmts s ! 0) (MustExecContext x)) w) \<and>
       namedStmt_Exec s x w = Inr (invoke (OnNamedStmt (stmts s ! 0) (MustExecContext x)) w)) \<and>
    (\<forall>sch y g w2. DB_Prepare sch prepare p y w = Returns ((Some g, None), w2) \<longrightarrow>
       stmts g \<noteq> [] \<and> stmts g ! 0 = fst (prepare (conns (heap w ! p) ! 0) y)) \<and>
    (\<forall>sch y g w2. DB_NamedPrepare sch prepare p y w = Returns ((Some g, None), w2) \<longrightarrow>
       stmts g \<noteq> [] \<and> stmts g ! 0 = fst (prepare (conns (heap w ! p) ! 0) y))"
proof -
  have m: "DB_Master p (w\<lparr>heap := (heap w)[p := (heap w ! p)\<lparr>count := k\<rparr>]\<rparr>) =
             Inr (conns (heap w ! p) ! 0)" for k
    using DB_Master_zero [of p "w\<lparr>heap := (heap w)[p := (heap w ! p)\<lparr>count := k\<rparr>]\<rparr>"] assms
    by simp
  have e: "stmt_Exec s x w = Inr (invoke (OnStmt (stmts s ! 0) (MustExecContext x)) w) \<and>
       namedStmt_Exec s x w = Inr (invoke (OnNamedStmt (stmts s ! 0) (MustExecContext x)) w)"
    if "stmts s \<noteq> []"
    using that by (simp add: stmt_Exec_def namedStmt_Exec_def index_zero)
  have g: "stmts g \<noteq> [] \<and> stmts g ! 0 = fst (prepare (conns (heap w ! p) ! 0) y)"
    if "g = \<lparr>db = p, stmts = map (\<lambda>c. fst (prepare c y)) (conns (heap w ! p))\<rparr>" for g y
    using that assms(2) by simp
  have p1: "stmts g \<noteq> [] \<and> stmts g ! 0 = fst (prepare (conns (heap w ! p) ! 0) y)"
    if "DB_Prepare sch prepare p y w = Returns ((Some g, None), w2)" for sch y g w2
    using Prepare_group_Some(1) [OF that [unfolded DB_Prepare_unfold [OF assms(1)]]] by (rule g)
  have p2: "stmts g \<noteq> [] \<and> stmts g ! 0 = fst (prepare (conns (heap w ! p) ! 0) y)"
    if "DB_NamedPrepare sch prepare p y w = Returns ((Some g, None), w2)" for sch y g w2
    using Prepare_group_Some(1) [OF that [unfolded DB_NamedPrepare_unfold [OF assms(1)]]] by (rule g)
  show ?thesis
  proof (intro conjI allI impI)
    fix k
    show "DB_Exec p x (w\<lparr>heap := (heap w)[p := (heap w ! p)\<lparr>count := k\<rparr>]\<rparr>) =
            Inr (invoke (OnConn (conns (heap w ! p) ! 0) (MustExecContext x))
                   (w\<lparr>heap := (heap w)[p := (heap w ! p)\<lparr>count := k\<rparr>]\<rparr>))"
      by (simp add: DB_Exec_def m)
    show "DB_NamedExec p x (w\<lparr>heap := (heap w)[p := (heap w ! p)\<lparr>count := k\<rparr>]\<rparr>) =
            Inr (invoke (OnConn (conns (heap w ! p) ! 0) (NamedExecContext x))
                   (w\<lparr>heap := (heap w)[p := (heap w ! p)\<lparr>count := k\<rparr>]\<rparr>))"
      by (simp add: DB_NamedExec_def m)
    show "DB_Begin p (w\<lparr>heap := (heap w)[p := (heap w ! p)\<lparr>count := k\<rparr>]\<rparr>) =
            Inr (invoke (OnConn (conns (heap w ! p) ! 0) Beginx)
                   (w\<lparr>heap := (heap w)[p := (heap w ! p)\<lparr>count := k\<rparr>]\<rparr>))"
      by (simp add: DB_Begin_def m)
    show "DB_BeginTx p x (w\<lparr>heap := (heap w)[p := (heap w ! p)\<lparr>count := k\<rparr>]\<rparr>) =
            Inr (invoke (OnConn (conns (heap w ! p) ! 0) (BeginTxx x))
                   (w\<lparr>heap := (heap w)[p := (heap w ! p)\<lparr>count := k\<rparr>]\<rparr>))"
      by (simp add: DB_BeginTx_def m)
  next
    fix c :: "('c, 't, 'a) call"
    show "heap (invoke c w) = heap w" by (rule heap_invoke)
  next
    assume "stmts s \<noteq> []"
    then show "stmt_Exec s x w = Inr (invoke (OnStmt (stmts s ! 0) (MustExecContext x)) w)"
      and "namedStmt_Exec s x w = Inr (invoke (OnNamedStmt (stmts s ! 0) (MustExecContext x)) w)"
      using e by simp_all
  next
    fix sch y g and w2 :: "('c, 't, 'a) world"
    assume "DB_Prepare sch prepare p y w = Returns ((Some g, None), w2)"
    then show "stmts g \<noteq> []" and "stmts g ! 0 = fst (prepare (conns (heap w ! p) ! 0) y)"
      using p1 by blast+
  next
    fix sch y g and w2 :: "('c, 't, 'a) world"
    assume "DB_NamedPrepare sch prepare p y w = Returns ((Some g, None), w2)"
    then show "stmts g \<noteq> []" and "stmts g ! 0 = fst (prepare (conns (heap w ! p) ! 0) y)"
      using p2 by blast+
  qed
qed

theorem writes_to_master_witness:
  "(0 :: nat) < length (heap \<lparr>heap = [\<lparr>conns = [Some ''A'', Some ''B''], count = 5\<rparr>],
                               trace = ([] :: (string, string, string) call list)\<rparr>) \<and>
   DB_Exec 0 ''insert'' \<lparr>heap = [\<lparr>conns = [Some ''A'', Some ''B''], count = 5\<rparr>],
                          trace = ([] :: (string, string, string) call list)\<rparr> =
     Inr \<lparr>heap = [\<lparr>conns = [Some ''A'', Some ''B''], count = 5\<rparr>],
          trace = [OnConn (Some ''A'') (MustExecContext ''insert'')]\<rparr> \<and>
   stmt_Exec \<lparr>db = 0, stmts = [Some ''sA'', Some ''sB'']\<rparr> ''insert''
       \<lparr>heap = [\<lparr>conns = [Some ''A'', Some ''B''], count = 5\<rparr>],
        trace = ([] :: (string, string, string) call list)\<rparr> =
     Inr \<lparr>heap = [\<lparr>conns = [Some ''A'', Some ''B''], count = 5\<rparr>],
          trace = [OnStmt (Some ''sA'') (MustExecContext ''insert'')]\<rparr>"
proof -
  let ?w = "\<lparr>heap = [\<lparr>conns = [Some ''A'', Some ''B''], count = 5\<rparr>],
             trace = ([] :: (string, string, string) call list)\<rparr>"
  let ?s = "\<lparr>db = 0, stmts = [Some ''sA'', Some ''sB'']\<rparr>"
  let ?prepare = "\<lambda>(c :: string option) (y :: string). (c, None :: string option)"
  have h: "(0 :: nat) < length (heap ?w)" "conns (heap ?w ! 0) \<noteq> []" "stmts ?s \<noteq> []"
    by simp_all
  note T = writes_to_master [OF h(1,2), where x = "''insert''" and s = ?s and prepare = ?prepare]
  have a: "DB_Exec 0 ''insert'' (?w\<lparr>heap := (heap ?w)[0 := (heap ?w ! 0)\<lparr>count := 5\<rparr>]\<rparr>) =
            Inr (invoke (OnConn (conns (heap ?w ! 0) ! 0) (MustExecContext ''insert''))
                   (?w\<lparr>heap := (heap ?w)[0 := (heap ?w ! 0)\<lparr>count := 5\<rparr>]\<rparr>))"
    using T by blast
  have b: "stmt_Exec ?s ''insert'' ?w =
             Inr (invoke (OnStmt (stmts ?s ! 0) (MustExecContext ''insert'')) ?w)"
    using T h(3) by blast
  show ?thesis using h(1) a b by (simp add: invoke_def)
qed

text \<open>
  C7.  On an allocated handle with at least one connection, one call of the selector
  with the number of connections gives the index \<open>i\<close> and the next state \<open>w'\<close>; each of
  \<open>Query\<close>, \<open>QueryRow\<close>, \<open>Select\<close>, \<open>Get\<close> and \<open>NamedQuery\<close> of the handle calls the
  connection at \<open>i\<close> and leaves \<open>w'\<close>, and each of \<open>Query\<close>, \<open>QueryRow\<close>, \<open>Select\<close> and \<open>Get\<close>
  of a group that belongs to the handle calls the statement at the same \<open>i\<close> and leaves
  the same \<open>w'\<close>, in which the counter of the handle has advanced by one when there is
  more than one connection.  The groups that \<open>Prepare\<close> and \<open>NamedPrepare\<close> return belong
  to the handle they were called on.  So reads on the handle and on its groups advance
  one counter.
\<close>

theorem reads_share_selector:
  fixes prepare :: "'c option \<Rightarrow> 'a \<Rightarrow> 't option \<times> 'e option"
    and w :: "('c, 't, 'a) world"
    and s :: "'t stmt"
  assumes "p < length (heap w)" "conns (heap w ! p) \<noteq> []"
    and "length (conns (heap w ! p)) < 2 ^ 63"
    and "db s = p" "length (stmts s) = length (conns (heap w ! p))"
  shows "(\<exists>i w'. slave p (len (conns (heap w ! p))) w = Inr (i, w') \<and>
       unat i < length (conns (heap w ! p)) \<and>
       (length (conns (heap w ! p)) \<le> 1 \<longrightarrow> i = 0 \<and> w' = w) \<and>
       (1 < length (conns (heap w ! p)) \<longrightarrow>
          i = 1 + (count (heap w ! p) + 1) mod (len (conns (heap w ! p)) - 1) \<and>
          w' = w\<lparr>heap := (heap w)[p := (heap w ! p)\<lparr>count := count (heap w ! p) + 1\<rparr>]\<rparr>) \<and>
       DB_Slave p w = Inr (conns (heap w ! p) ! unat i, w') \<and>
       DB_Query p x w = Inr (invoke (OnConn (conns (heap w ! p) ! unat i) (QueryxContext x)) w') \<and>
       DB_QueryRow p x w =
         Inr (invoke (OnConn (conns (heap w ! p) ! unat i) (QueryRowxContext x)) w') \<and>
       DB_Select p x w = Inr (invoke (OnConn (conns (heap w ! p) ! unat i) (SelectContext x)) w') \<and>
       DB_Get p x w = Inr (invoke (OnConn (conns (heap w ! p) ! unat i) (GetContext x)) w') \<and>
       DB_NamedQuery p x w =
         Inr (invoke (OnConn (conns (heap w ! p) ! unat i) (NamedQueryContext x)) w') \<and>
       stmt_indexForSalve s w = Inr (i, w') \<and>
       stmt_Query s x w = Inr (invoke (OnStmt (stmts s ! unat i) (QueryxContext x)) w') \<and>
       stmt_QueryRow s x w = Inr (invoke (OnStmt (stmts s ! unat i) (QueryRowxContext x)) w') \<and>
       stmt_Select s x w = Inr (invoke (OnStmt (stmts s ! unat i) (SelectContext x)) w') \<and>
       stmt_Get s x w = Inr (invoke (OnStmt (stmts s ! unat i) (GetContext x)) w') \<and>
       namedStmt_indexForSalve s w = Inr (i, w') \<and>
       namedStmt_Query s x w =
         Inr (invoke (OnNamedStmt (stmts s ! unat i) (QueryxContext x)) w') \<and>
       namedStmt_QueryRow s x w =
         Inr (invoke (OnNamedStmt (stmts s ! unat i) (QueryRowxContext x)) w') \<and>
       namedStmt_Select s x w =
         Inr (invoke (OnNamedStmt (stmts s ! unat i) (SelectContext x)) w') \<and>
       namedStmt_Get s x w = Inr (invoke (OnNamedStmt (stmts s ! unat i) (GetContext x)) w')) \<and>
    (\<forall>sch y g w2. DB_Prepare sch prepare p y w = Returns ((Some g, None), w2) \<longrightarrow>
       db g = p \<and> length (stmts g) = length (conns (heap w ! p)) \<and> heap w2 = heap w) \<and>
    (\<forall>sch y g w2. DB_NamedPrepare sch prepare p y w = Returns ((Some g, None), w2) \<longrightarrow>
       db g = p \<and> length (stmts g) = length (conns (heap w ! p)) \<and> heap w2 = heap w)"
proof (intro conjI allI impI)
  let ?cns = "conns (heap w ! p)"
  obtain i w' where sl: "slave p (len ?cns) w = Inr (i, w')"
    and nn: "0 \<le> sint i" and lt: "unat i < length ?cns"
    and few: "length ?cns \<le> 1 \<longrightarrow> i = 0 \<and> w' = w"
    and many: "1 < length ?cns \<longrightarrow>
          i = 1 + (count (heap w ! p) + 1) mod (len ?cns - 1) \<and>
          w' = w\<lparr>heap := (heap w)[p := (heap w ! p)\<lparr>count := count (heap w ! p) + 1\<rparr>]\<rparr>"
    using slave_len [OF assms(1,2,3)] by blast
  have ds: "DB_Slave p w = Inr (?cns ! unat i, w')"
    using DB_Slave_selected [OF assms(1) sl nn lt] .
  have si: "stmt_indexForSalve s w = Inr (i, w')" "namedStmt_indexForSalve s w = Inr (i, w')"
    using indexForSalve_selected [of s w] assms(1,4) sl by simp_all
  have ix: "index (stmts s) i = Inr (stmts s ! unat i)"
    using index_in_range [OF nn, of "stmts s"] lt assms(5) by simp
  show "\<exists>i w'. slave p (len ?cns) w = Inr (i, w') \<and>
       unat i < length ?cns \<and>
       (length ?cns \<le> 1 \<longrightarrow> i = 0 \<and> w' = w) \<and>
       (1 < length ?cns \<longrightarrow>
          i = 1 + (count (heap w ! p) + 1) mod (len ?cns - 1) \<and>
          w' = w\<lparr>heap := (heap w)[p := (heap w ! p)\<lparr>count := count (heap w ! p) + 1\<rparr>]\<rparr>) \<and>
       DB_Slave p w = Inr (?cns ! unat i, w') \<and>
       DB_Query p x w = Inr (invoke (OnConn (?cns ! unat i) (QueryxContext x)) w') \<and>
       DB_QueryRow p x w = Inr (invoke (OnConn (?cns ! unat i) (QueryRowxContext x)) w') \<and>
       DB_Select p x w = Inr (invoke (OnConn (?cns ! unat i) (SelectContext x)) w') \<and>
       DB_Get p x w = Inr (invoke (OnConn (?cns ! unat i) (GetContext x)) w') \<and>
       DB_NamedQuery p x w = Inr (invoke (OnConn (?cns ! unat i) (NamedQueryContext x)) w') \<and>
       stmt_indexForSalve s w = Inr (i, w') \<and>
       stmt_Query s x w = Inr (invoke (OnStmt (stmts s ! unat i) (QueryxContext x)) w') \<and>
       stmt_QueryRow s x w = Inr (invoke (OnStmt (stmts s ! unat i) (QueryRowxContext x)) w') \<and>
       stmt_Select s x w = Inr (invoke (OnStmt (stmts s ! unat i) (SelectContext x)) w') \<and>
       stmt_Get s x w = Inr (invoke (OnStmt (stmts s ! unat i) (GetContext x)) w') \<and>
       namedStmt_indexForSalve s w = Inr (i, w') \<and>
       namedStmt_Query s x w =
         Inr (invoke (OnNamedStmt (stmts s ! unat i) (QueryxContext x)) w') \<and>
       namedStmt_QueryRow s x w =
         Inr (invoke (OnNamedStmt (stmts s ! unat i) (QueryRowxContext x)) w') \<and>
       namedStmt_Select s x w =
         Inr (invoke (OnNamedStmt (stmts s ! unat i) (SelectContext x)) w') \<and>
       namedStmt_Get s x w = Inr (invoke (OnNamedStmt (stmts s ! unat i) (GetContext x)) w')"
  proof (intro exI [of _ i] exI [of _ w'] conjI)
    show "slave p (len ?cns) w = Inr (i, w')" using sl .
    show "unat i < length ?cns" using lt .
    show "length ?cns \<le> 1 \<longrightarrow> i = 0 \<and> w' = w" using few .
    show "1 < length ?cns \<longrightarrow>
          i = 1 + (count (heap w ! p) + 1) mod (len ?cns - 1) \<and>
          w' = w\<lparr>heap := (heap w)[p := (heap w ! p)\<lparr>count := count (heap w ! p) + 1\<rparr>]\<rparr>"
      using many .
    show "DB_Slave p w = Inr (?cns ! unat i, w')" using ds .
    show "DB_Query p x w = Inr (invoke (OnConn (?cns ! unat i) (QueryxContext x)) w')"
      by (simp add: DB_Query_def ds)
    show "DB_QueryRow p x w = Inr (invoke (OnConn (?cns ! unat i) (QueryRowxContext x)) w')"
      by (simp add: DB_QueryRow_def ds)
    show "DB_Select p x w = Inr (invoke (OnConn (?cns ! unat i) (SelectContext x)) w')"
      by (simp add: DB_Select_def ds)
    show "DB_Get p x w = Inr (invoke (OnConn (?cns ! unat i) (GetContext x)) w')"
      by (simp add: DB_Get_def ds)
    show "DB_NamedQuery p x w = Inr (invoke (OnConn (?cns ! unat i) (NamedQueryContext x)) w')"
      by (simp add: DB_NamedQuery_def ds)
    show "stmt_indexForSalve s w = Inr (i, w')" using si(1) .
    show "stmt_Query s x w = Inr (invoke (OnStmt (stmts s ! unat i) (QueryxContext x)) w')"
      by (simp add: stmt_Query_def si ix)
    show "stmt_QueryRow s x w = Inr (invoke (OnStmt (stmts s ! unat i) (QueryRowxContext x)) w')"
      by (simp add: stmt_QueryRow_def si ix)
    show "stmt_Select s x w = Inr (invoke (OnStmt (stmts s ! unat i) (SelectContext x)) w')"
      by (simp add: stmt_Select_def si ix)
    show "stmt_Get s x w = Inr (invoke (OnStmt (stmts s ! unat i) (GetContext x)) w')"
      by (simp add: stmt_Get_def si ix)
    show "namedStmt_indexForSalve s w = Inr (i, w')" using si(2) .
    show "namedStmt_Query s x w =
         Inr (invoke (OnNamedStmt (stmts s ! unat i) (QueryxContext x)) w')"
      by (simp add: namedStmt_Query_def si ix)
    show "namedStmt_QueryRow s x w =
         Inr (invoke (OnNamedStmt (stmts s ! unat i) (QueryRowxContext x)) w')"
      by (simp add: namedStmt_QueryRow_def si ix)
    show "namedStmt_Select s x w =
         Inr (invoke (OnNamedStmt (stmts s ! unat i) (SelectContext x)) w')"
      by (simp add: namedStmt_Select_def si ix)
    show "namedStmt_Get s x w = Inr (invoke (OnNamedStmt (stmts s ! unat i) (GetContext x)) w')"
      by (simp add: namedStmt_Get_def si ix)
  qed
next
  fix sch y g and w2 :: "('c, 't, 'a) world"
  assume a: "DB_Prepare sch prepare p y w = Returns ((Some g, None), w2)"
  note G = Prepare_group_Some [OF a [unfolded DB_Prepare_unfold [OF assms(1)]]]
  show "db g = p" and "length (stmts g) = length (conns (heap w ! p))" and "heap w2 = heap w"
    using G by simp_all
next
  fix sch y g and w2 :: "('c, 't, 'a) world"
  assume a: "DB_NamedPrepare sch prepare p y w = Returns ((Some g, None), w2)"
  note G = Prepare_group_Some [OF a [unfolded DB_NamedPrepare_unfold [OF assms(1)]]]
  show "db g = p" and "length (stmts g) = length (conns (heap w ! p))" and "heap w2 = heap w"
    using G by simp_all
qed

theorem reads_share_selector_witness:
  "DB_Query 0 ''q1'' \<lparr>heap = [\<lparr>conns = [Some ''A'', Some ''B'', Some ''C''], count = 0\<rparr>],
                       trace = ([] :: (string, string, string) call list)\<rparr> =
     Inr \<lparr>heap = [\<lparr>conns = [Some ''A'', Some ''B'', Some ''C''], count = 1\<rparr>],
          trace = [OnConn (Some ''C'') (QueryxContext ''q1'')]\<rparr> \<and>
   stmt_Query \<lparr>db = 0, stmts = [Some ''sA'', Some ''sB'', Some ''sC'']\<rparr> ''q2''
       \<lparr>heap = [\<lparr>conns = [Some ''A'', Some ''B'', Some ''C''], count = 1\<rparr>],
        trace = [OnConn (Some ''C'') (QueryxContext ''q1'') :: (string, string, string) call]\<rparr> =
     Inr \<lparr>heap = [\<lparr>conns = [Some ''A'', Some ''B'', Some ''C''], count = 2\<rparr>],
          trace = [OnConn (Some ''C'') (QueryxContext ''q1''),
                   OnStmt (Some ''sB'') (QueryxContext ''q2'')]\<rparr>"
proof -
  let ?cns = "[Some ''A'', Some ''B'', Some ''C'']"
  let ?w = "\<lparr>heap = [\<lparr>conns = ?cns, count = 0\<rparr>],
             trace = ([] :: (string, string, string) call list)\<rparr>"
  let ?w1 = "\<lparr>heap = [\<lparr>conns = ?cns, count = 1\<rparr>],
              trace = [OnConn (Some ''C'') (QueryxContext ''q1'') :: (string, string, string) call]\<rparr>"
  let ?s = "\<lparr>db = 0, stmts = [Some ''sA'', Some ''sB'', Some ''sC'']\<rparr>"
  let ?prepare = "\<lambda>(c :: string option) (y :: string). (c, None :: string option)"
  have l: "len ?cns = 3" by (simp add: len_def)
  have h: "(0 :: nat) < length (heap ?w)" "conns (heap ?w ! 0) \<noteq> []"
    "length (conns (heap ?w ! 0)) < 2 ^ 63" "db ?s = 0"
    "length (stmts ?s) = length (conns (heap ?w ! 0))"
    by simp_all
  have h1: "(0 :: nat) < length (heap ?w1)" "conns (heap ?w1 ! 0) \<noteq> []"
    "length (conns (heap ?w1 ! 0)) < 2 ^ 63" "db ?s = 0"
    "length (stmts ?s) = length (conns (heap ?w1 ! 0))"
    by simp_all
  have s0: "slave 0 (len (conns (heap ?w ! 0))) ?w =
              Inr (2, \<lparr>heap = [\<lparr>conns = ?cns, count = 1\<rparr>], trace = []\<rparr>)"
    by (simp add: l slave_def word_sle_eq)
  have s1: "slave 0 (len (conns (heap ?w1 ! 0))) ?w1 =
              Inr (1, \<lparr>heap = [\<lparr>conns = ?cns, count = 2\<rparr>],
                       trace = [OnConn (Some ''C'') (QueryxContext ''q1'')]\<rparr>)"
    by (simp add: l slave_def word_sle_eq)
  obtain i w' where "slave 0 (len (conns (heap ?w ! 0))) ?w = Inr (i, w')"
    and "DB_Query 0 ''q1'' ?w =
           Inr (invoke (OnConn (conns (heap ?w ! 0) ! unat i) (QueryxContext ''q1'')) w')"
    using reads_share_selector [OF h, where x = "''q1''" and prepare = ?prepare] by blast
  then have a: "DB_Query 0 ''q1'' ?w = Inr ?w1" using s0 by (simp add: invoke_def)
  obtain j w'' where "slave 0 (len (conns (heap ?w1 ! 0))) ?w1 = Inr (j, w'')"
    and "stmt_Query ?s ''q2'' ?w1 =
           Inr (invoke (OnStmt (stmts ?s ! unat j) (QueryxContext ''q2'')) w'')"
    using reads_share_selector [OF h1, where x = "''q2''" and prepare = ?prepare] by blast
  then have b: "stmt_Query ?s ''q2'' ?w1 =
      Inr \<lparr>heap = [\<lparr>conns = ?cns, count = 2\<rparr>],
          trace = [OnConn (Some ''C'') (QueryxContext ''q1''),
                   OnStmt (Some ''sB'') (QueryxContext ''q2'')]\<rparr>"
    using s1 by (simp add: invoke_def)
  show ?thesis using a b by simp
qed

text \<open>
  C8.  When preparing fails on some connection of an allocated handle, \<open>Prepare\<close> and
  \<open>NamedPrepare\<close> can return, and whenever they return they return no group and one of
  the errors of the failed preparations.  The collaborator calls they have made are the
  preparations, one per connection, and nothing else: no statement has been closed.
\<close>

theorem Prepare_failure_leaks:
  fixes prepare :: "'c option \<Rightarrow> 'a \<Rightarrow> 't option \<times> 'e option"
    and w :: "('c, 't, 'a) world"
  assumes "p < length (heap w)"
    and "\<exists>c \<in> set (conns (heap w ! p)). snd (prepare c x) \<noteq> None"
  shows "(\<exists>sch r w'. DB_Prepare sch prepare p x w = Returns (r, w')) \<and>
    (\<forall>sch r w'. DB_Prepare sch prepare p x w = Returns (r, w') \<longrightarrow>
       fst r = None \<and> snd r \<noteq> None \<and>
       snd r \<in> (\<lambda>c. snd (prepare c x)) ` set (conns (heap w ! p)) \<and>
       heap w' = heap w \<and>
       (\<exists>cs. mset cs = mset (conns (heap w ! p)) \<and>
             trace w' = trace w @ map (\<lambda>c. OnConn c (PreparexContext x)) cs) \<and>
       (\<forall>t. OnStmt t Close \<notin> set (drop (length (trace w)) (trace w')))) \<and>
    (\<exists>sch r w'. DB_NamedPrepare sch prepare p x w = Returns (r, w')) \<and>
    (\<forall>sch r w'. DB_NamedPrepare sch prepare p x w = Returns (r, w') \<longrightarrow>
       fst r = None \<and> snd r \<noteq> None \<and>
       snd r \<in> (\<lambda>c. snd (prepare c x)) ` set (conns (heap w ! p)) \<and>
       heap w' = heap w \<and>
       (\<exists>cs. mset cs = mset (conns (heap w ! p)) \<and>
             trace w' = trace w @ map (\<lambda>c. OnConn c (PrepareNamedContext x)) cs) \<and>
       (\<forall>t. OnNamedStmt t Close \<notin> set (drop (length (trace w)) (trace w'))))"
proof -
  have nf: "\<not> (\<forall>c \<in> set (conns (heap w ! p)). snd (prepare c x) = None)"
    using assms(2) by simp
  have main: "fst r = None \<and> snd r \<noteq> None \<and>
       snd r \<in> (\<lambda>c. snd (prepare c x)) ` set (conns (heap w ! p)) \<and>
       heap w' = heap w \<and>
       (\<exists>cs. mset cs = mset (conns (heap w ! p)) \<and>
             trace w' = trace w @ map (\<lambda>c. OnConn c m) cs) \<and>
       (\<forall>t. OnStmt t Close \<notin> set (drop (length (trace w)) (trace w'))) \<and>
       (\<forall>t. OnNamedStmt t Close \<notin> set (drop (length (trace w)) (trace w')))"
    if "(case scan_len sch (length (conns (heap w ! p))) (Prepare_fn prepare m p x)
                   (replicate (length (conns (heap w ! p))) None, w) of
              Panics f \<Rightarrow> Panics f
            | Unfinished \<Rightarrow> Unfinished
            | Returns (e, (ss, w')) \<Rightarrow>
                if e \<noteq> None then Returns ((None, e), w')
                else Returns ((Some \<lparr>db = p, stmts = ss\<rparr>, None), w')) = Returns (r, w')"
    for sch m r and w' :: "('c, 't, 'a) world"
  proof -
    note R = Prepare_group_Returns [OF that]
    obtain cs where cs: "mset cs = mset (conns (heap w ! p))"
      "trace w' = trace w @ map (\<lambda>c. OnConn c m) cs"
      using R(2) by blast
    have d: "drop (length (trace w)) (trace w') = map (\<lambda>c. OnConn c m) cs"
      using cs(2) by simp
    show ?thesis
      using R(1) R(4) [OF nf] cs unfolding d by (auto simp add: no_Close_in_prepares)
  qed
  have c1: "\<exists>sch r w'. DB_Prepare sch prepare p x w = Returns (r, w')"
    using Prepare_group_can_return [where w = w and p = p and prepare = prepare
        and m = "PreparexContext x" and x = x]
    unfolding DB_Prepare_unfold [OF assms(1)] .
  have c2: "\<exists>sch r w'. DB_NamedPrepare sch prepare p x w = Returns (r, w')"
    using Prepare_group_can_return [where w = w and p = p and prepare = prepare
        and m = "PrepareNamedContext x" and x = x]
    unfolding DB_NamedPrepare_unfold [OF assms(1)] .
  have m1: "fst r = None \<and> snd r \<noteq> None \<and>
       snd r \<in> (\<lambda>c. snd (prepare c x)) ` set (conns (heap w ! p)) \<and>
       heap w' = heap w \<and>
       (\<exists>cs. mset cs = mset (conns (heap w ! p)) \<and>
             trace w' = trace w @ map (\<lambda>c. OnConn c (PreparexContext x)) cs) \<and>
       (\<forall>t. OnStmt t Close \<notin> set (drop (length (trace w)) (trace w')))"
    if "DB_Prepare sch prepare p x w = Returns (r, w')" for sch r w'
    using main [OF that [unfolded DB_Prepare_unfold [OF assms(1)]]] by blast
  have m2: "fst r = None \<and> snd r \<noteq> None \<and>
       snd r \<in> (\<lambda>c. snd (prepare c x)) ` set (conns (heap w ! p)) \<and>
       heap w' = heap w \<and>
       (\<exists>cs. mset cs = mset (conns (heap w ! p)) \<and>
             trace w' = trace w @ map (\<lambda>c. OnConn c (PrepareNamedContext x)) cs) \<and>
       (\<forall>t. OnNamedStmt t Close \<notin> set (drop (length (trace w)) (trace w')))"
    if "DB_NamedPrepare sch prepare p x w = Returns (r, w')" for sch r w'
    using main [OF that [unfolded DB_NamedPrepare_unfold [OF assms(1)]]] by blast
  show ?thesis using c1 c2 m1 m2 by blast
qed

theorem Prepare_failure_leaks_witness:
  "(0 :: nat) < length (heap \<lparr>heap = [\<lparr>conns = [Some ''A'', Some ''B''], count = 0\<rparr>],
                               trace = ([] :: (string, string, string) call list)\<rparr>) \<and>
   (\<lambda>c y. if c = Some ''B'' then (None, Some ''syntax'') else (c, None :: string option))
      (Some ''A'') ''q'' = (Some ''A'', None) \<and>
   (\<lambda>c y. if c = Some ''B'' then (None, Some ''syntax'') else (c, None :: string option))
      (Some ''B'') ''q'' = (None, Some ''syntax'') \<and>
   DB_Prepare [Main, Main, Main, Go 0, Go 0, Go 1, Go 1, Main, Main, Main]
      (\<lambda>c y. if c = Some ''B'' then (None, Some ''syntax'') else (c, None)) 0 ''q''
      \<lparr>heap = [\<lparr>conns = [Some ''A'', Some ''B''], count = 0\<rparr>],
       trace = ([] :: (string, string, string) call list)\<rparr> =
     Returns ((None, Some ''syntax''),
       \<lparr>heap = [\<lparr>conns = [Some ''A'', Some ''B''], count = 0\<rparr>],
        trace = [OnConn (Some ''A'') (PreparexContext ''q''),
                 OnConn (Some ''B'') (PreparexContext ''q'')]\<rparr>) \<and>
   OnStmt (Some ''A'') Close \<notin>
     set [OnConn (Some ''A'') (PreparexContext ''q''),
          OnConn (Some ''B'') (PreparexContext ''q'') :: (string, string, string) call]"
proof -
  let ?w = "\<lparr>heap = [\<lparr>conns = [Some ''A'', Some ''B''], count = 0\<rparr>],
             trace = ([] :: (string, string, string) call list)\<rparr>"
  let ?w' = "\<lparr>heap = [\<lparr>conns = [Some ''A'', Some ''B''], count = 0\<rparr>],
        trace = [OnConn (Some ''A'') (PreparexContext ''q''),
                 OnConn (Some ''B'') (PreparexContext ''q'') :: (string, string, string) call]\<rparr>"
  let ?prepare = "\<lambda>(c :: string option) (y :: string).
                    if c = Some ''B'' then (None, Some ''syntax'') else (c, None :: string option)"
  let ?sch = "[Main, Main, Main, Go 0, Go 0, Go 1, Go 1, Main, Main, Main]"
  have h: "(0 :: nat) < length (heap ?w)"
    "\<exists>c \<in> set (conns (heap ?w ! 0)). snd (?prepare c ''q'') \<noteq> None"
    by simp_all
  have run: "DB_Prepare ?sch ?prepare 0 ''q'' ?w = Returns ((None, Some ''syntax''), ?w')"
    by code_simp
  have "\<forall>t. OnStmt t Close \<notin> set (drop (length (trace ?w)) (trace ?w'))"
    using Prepare_failure_leaks [where prepare = ?prepare and x = "''q''" and w = ?w and p = 0,
        OF h] run by blast
  then have "OnStmt (Some ''A'') Close \<notin> set (drop (length (trace ?w)) (trace ?w'))"
    by (rule spec)
  then show ?thesis using h(1) run by simp
qed

subsection \<open>Closing a group\<close>

lemma Close_scan_Returns:
  fixes closer :: "'t option \<Rightarrow> 'e option"
    and w w' :: "('c, 't, 'a) world"
  assumes "scan_len sch (length ts) (\<lambda>i v. (closer (ts ! i), invoke (mk (ts ! i)) v)) w =
             Returns (e, w')"
  shows "heap w' = heap w"
    and "\<exists>cs. mset cs = mset ts \<and> trace w' = trace w @ map mk cs"
    and "e = None \<longleftrightarrow> (\<forall>t \<in> set ts. closer t = None)"
proof -
  let ?n = "length ts"
  let ?fn = "\<lambda>i (v :: ('c, 't, 'a) world). (closer (ts ! i), invoke (mk (ts ! i)) v)"
  let ?s0 = "scan_init w :: ('e, ('c, 't, 'a) world) scan_state"
  let ?out = "\<lambda>k. closer (ts ! k)"
  obtain s where run: "scan_exec ?n ?fn sch ?s0 = Some s" and ret: "pc s = Ret"
    and es: "(e, w') = (err s, store s)"
    using assms unfolding scan_len_Returns_iff by auto
  define P where "P cs v \<longleftrightarrow>
      heap v = heap w \<and> trace v = trace w @ map (\<lambda>i. mk (ts ! i)) cs"
    for cs and v :: "('c, 't, 'a) world"
  have inv0: "scan_inv ?n ?s0" by (rule scan_inv_init)
  have inv: "scan_inv ?n s" using scan_exec_inv [OF inv0 run] .
  have P0: "P (calls ?s0) (store ?s0)" by (simp add: P_def scan_init_def)
  have step: "P (cs @ [k]) (snd (?fn k v)) \<and> fst (?fn k v) = ?out k"
    if "P cs v" "k < ?n" "k \<notin> set cs" for cs v k
    using that(1) unfolding P_def by (simp add: invoke_def)
  have o0: "\<forall>x \<in> set (sending ?s0 @ chan ?s0 @ recvd ?s0). snd x = ?out (fst x)"
    by (simp add: scan_init_def)
  have Po: "P (calls s) (store s) \<and>
            (\<forall>x \<in> set (sending s @ chan s @ recvd s). snd x = ?out (fst x))"
    using scan_exec_store_outcomes [of P ?n ?fn ?out, OF step inv0 P0 o0 run] .
  then have P: "P (calls s) (store s)"
    and o: "\<forall>x \<in> set (sending s @ chan s @ recvd s). snd x = ?out (fst x)"
    by simp_all
  have w': "w' = store s" and e: "e = err s" using es by simp_all
  show "heap w' = heap w" using P unfolding P_def w' by simp
  have c: "mset (calls s) = mset [0..<?n]" using scan_inv_Ret(5) [OF inv ret] .
  show "\<exists>cs. mset cs = mset ts \<and> trace w' = trace w @ map mk cs"
  proof (intro exI conjI)
    have "mset (map ((!) ts) (calls s)) = image_mset ((!) ts) (mset [0..<?n])"
      using c by (metis mset_map)
    also have "\<dots> = mset (map ((!) ts) [0..<?n])" by (simp del: mset_upt)
    also have "\<dots> = mset ts" by (simp only: map_nth)
    finally show "mset (map ((!) ts) (calls s)) = mset ts" .
    show "trace w' = trace w @ map mk (map ((!) ts) (calls s))"
      using P unfolding P_def w' by (simp add: comp_def)
  qed
  have l: "err s = last_failure (map snd (recvd s))" using scan_invD(5) [OF inv] .
  have "set (map fst (recvd s)) = set [0..<?n]"
    using scan_inv_Ret(4) [OF inv ret] by (rule mset_eq_setD)
  then have f: "fst ` set (recvd s) = {0..<?n}" by simp
  have sn: "snd ` set (recvd s) = closer ` set ts"
  proof -
    have "snd ` set (recvd s) = ?out ` fst ` set (recvd s)"
      using o by (force simp add: image_iff)
    also have "\<dots> = ?out ` {0..<?n}" using f by simp
    also have "\<dots> = closer ` ((!) ts ` {0..<?n})" by (simp add: image_image)
    also have "(!) ts ` {0..<?n} = set ts" using nth_image [of ?n ts] by simp
    finally show ?thesis .
  qed
  have "err s = None \<longleftrightarrow> (\<forall>r \<in> snd ` set (recvd s). r = None)"
    unfolding l by (simp add: last_failure_None_iff)
  then show "e = None \<longleftrightarrow> (\<forall>t \<in> set ts. closer t = None)" unfolding sn e by simp
qed

text \<open>
  Closing a group closes each of its statements once, whatever the closures return, and
  reports a failure exactly when one of them fails.
\<close>

lemma stmt_Close_closes_all:
  fixes closer :: "'t option \<Rightarrow> 'e option"
    and w w' :: "('c, 't, 'a) world"
  assumes "stmt_Close sch closer s w = Returns (e, w')"
  shows "heap w' = heap w"
    and "\<exists>ts. mset ts = mset (stmts s) \<and> trace w' = trace w @ map (\<lambda>t. OnStmt t Close) ts"
    and "e = None \<longleftrightarrow> (\<forall>t \<in> set (stmts s). closer t = None)"
  using Close_scan_Returns [where mk = "\<lambda>t. OnStmt t Close", OF assms [unfolded stmt_Close_def]]
  by blast+

lemma namedStmt_Close_closes_all:
  fixes closer :: "'t option \<Rightarrow> 'e option"
    and w w' :: "('c, 't, 'a) world"
  assumes "namedStmt_Close sch closer s w = Returns (e, w')"
  shows "heap w' = heap w"
    and "\<exists>ts. mset ts = mset (stmts s) \<and> trace w' = trace w @ map (\<lambda>t. OnNamedStmt t Close) ts"
    and "e = None \<longleftrightarrow> (\<forall>t \<in> set (stmts s). closer t = None)"
  using Close_scan_Returns [where mk = "\<lambda>t. OnNamedStmt t Close",
      OF assms [unfolded namedStmt_Close_def]]
  by blast+

lemma stmt_Close_can_return:
  fixes closer :: "'t option \<Rightarrow> 'e option"
    and w :: "('c, 't, 'a) world"
  shows "\<exists>sch e w'. stmt_Close sch closer s w = Returns (e, w')"
  unfolding stmt_Close_def by (rule scan_len_can_return)

end
